theory Spec2Isabelle
  imports Complex_Main
begin

section \<open>The voice cache of \<open>sound_manager.py\<close>\<close>

text \<open>
  The class \<open>SoundManager\<close> plays a word's speech from a memory cache, from a file on
  disk, or after a background thread has synthesised the file. This theory embeds the
  voice part of the class: \<open>play_voice\<close> (the request), \<open>update\<close> (the poll of the
  consumer loop), \<open>set_volume_voice\<close>, and the worker thread \<open>_generation_worker\<close> with
  \<open>_generate_and_cache\<close>. Each of the two threads is cut into the steps between which the
  other one can run.
\<close>

subsection \<open>Strings: \<open>lower\<close>, \<open>strip\<close> and \<open>os.path.join\<close>\<close>

text \<open>
  A Python \<open>str\<close> is a sequence of code points. A \<open>string\<close> here is such a sequence
  with every code point below 256, one \<open>char\<close> each. In that range \<open>str.lower\<close> maps
  each of A-Z and of the capitals U+00C0-U+00DE (not the sign U+00D7) to the code point
  32 above it, and \<open>str.strip\<close> removes from both ends the code points that
  \<open>str.isspace\<close> accepts: 9-13, 28-32, 133 and 160.
\<close>

definition lower_char :: "char \<Rightarrow> char" where
  "lower_char c =
     (let n = (of_char c :: nat)
      in if (65 \<le> n \<and> n \<le> 90) \<or> (192 \<le> n \<and> n \<le> 222 \<and> n \<noteq> 215)
         then char_of (n + 32) else c)"

definition lower :: "string \<Rightarrow> string" where
  "lower w = map lower_char w"

definition isspace :: "char \<Rightarrow> bool" where
  "isspace c =
     (let n = (of_char c :: nat)
      in (9 \<le> n \<and> n \<le> 13) \<or> (28 \<le> n \<and> n \<le> 32) \<or> n = 133 \<or> n = 160)"

definition strip :: "string \<Rightarrow> string" where
  "strip w = rev (dropWhile isspace (rev (dropWhile isspace w)))"

text \<open>
  \<open>os.path.join a b\<close> with the separator \<open>/\<close>: an absolute \<open>b\<close> replaces \<open>a\<close>, and no
  separator is added after an empty \<open>a\<close> or one that ends with a separator.
\<close>

definition path_join :: "string \<Rightarrow> string \<Rightarrow> string" where
  "path_join a b =
     (if b \<noteq> [] \<and> hd b = CHR ''/'' then b
      else if a = [] \<or> last a = CHR ''/'' then a @ b
      else a @ ''/'' @ b)"

text \<open>\<open>self.voice_dir = os.path.join("assets", "voice")\<close>\<close>

definition voice_dir :: string where
  "voice_dir = path_join ''assets'' ''voice''"

subsection \<open>Files, sounds and the state of a \<open>SoundManager\<close>\<close>

text \<open>
  A file is the speech of a text, which the mixer can decode, or anything else (an empty
  or truncated file), which it cannot. A \<open>pygame.mixer.Sound\<close> is the audio it was loaded
  from and its playback volume, 1.0 when it is created.
\<close>

datatype audio_file = Speech string | Corrupt

record sound =
  audio :: string
  volume :: real

text \<open>
  The worker thread is between two iterations of its loop (\<open>Idle\<close>), inside
  \<open>gTTS(...)\<close>/\<open>tts.save\<close> for a word (\<open>Generating\<close>), past a successful save and before
  its critical section (\<open>Saved\<close>, with the word and the path), or in the handler of an
  exception and before its critical section (\<open>Failed\<close>).
\<close>

datatype worker_pc = Idle | Generating string | Saved string string | Failed string

text \<open>
  The consumer thread is between two calls (\<open>Ready\<close>); inside \<open>play_voice\<close> for a word,
  after \<open>os.path.exists\<close> has returned true and before \<open>pygame.mixer.Sound(path)\<close>
  (\<open>Loading\<close>), or about to set the request and enter the critical section
  (\<open>Enqueuing\<close>); or inside the loop of \<open>update\<close>, holding the lock (\<open>Polling\<close>).
\<close>

datatype consumer_pc = Ready | Loading string | Enqueuing string | Polling

text \<open>
  The fields of the object that the voice functions read or write, and what they share
  with their environment: whether \<open>pygame.mixer.init()\<close> succeeded; the file system,
  which is the file that each path names (two paths can name one file) and the content
  of each file; the positions of the two threads; and the sounds played so far, oldest
  first.
\<close>

record state =
  mixer_ok :: bool
  file_of :: "string \<Rightarrow> string"
  disk :: "string \<rightharpoonup> audio_file"
  voice_cache :: "string \<rightharpoonup> sound"
  generation_queue :: "string list"
  ready_queue :: "(string \<times> string) list"
  generating_words :: "string set"
  pending_play :: "string option"
  volume_bgm :: real
  volume_se :: real
  volume_voice :: real
  worker :: worker_pc
  consumer :: consumer_pc
  played :: "sound list"

text \<open>
  \<open>__init__\<close>: a failure of \<open>pygame.mixer.init()\<close> is printed and the object is built all
  the same. The file system is whatever the machine and earlier runs have left.
\<close>

definition init :: "bool \<Rightarrow> (string \<Rightarrow> string) \<Rightarrow> (string \<rightharpoonup> audio_file) \<Rightarrow> state" where
  "init ok names files =
     \<lparr> mixer_ok = ok, file_of = names, disk = files, voice_cache = Map.empty,
       generation_queue = [], ready_queue = [], generating_words = {}, pending_play = None,
       volume_bgm = 0.3, volume_se = 0.6, volume_voice = 0.8,
       worker = Idle, consumer = Ready, played = [] \<rparr>"

text \<open>The content of the file that a path names, if the file exists.\<close>

definition read_file :: "state \<Rightarrow> string \<Rightarrow> audio_file option" where
  "read_file s path = disk s (file_of s path)"

text \<open>Writing under a path changes the file that the path names.\<close>

definition write_file :: "string \<Rightarrow> audio_file \<Rightarrow> state \<Rightarrow> state" where
  "write_file path content s = s\<lparr>disk := (disk s)(file_of s path \<mapsto> content)\<rparr>"

text \<open>
  \<open>pygame.mixer.Sound(path)\<close> raises without an initialised mixer, for a missing file
  and for one it cannot decode; \<open>None\<close> is the exception.
\<close>

definition load_sound :: "state \<Rightarrow> string \<Rightarrow> sound option" where
  "load_sound s path =
     (if mixer_ok s
      then (case read_file s path of
              Some (Speech spoken) \<Rightarrow> Some \<lparr> audio = spoken, volume = 1 \<rparr>
            | _ \<Rightarrow> None)
      else None)"

definition set_volume :: "real \<Rightarrow> sound \<Rightarrow> sound" where
  "set_volume v sound = sound\<lparr>volume := v\<rparr>"

subsection \<open>\<open>play_voice\<close>\<close>

text \<open>The key of a word: \<open>word.lower().strip()\<close>.\<close>

definition normalize :: "string \<Rightarrow> string" where
  "normalize word = strip (lower word)"

text \<open>
  The path that \<open>play_voice\<close> looks under:
  \<open>filename = f"{word}.mp3"; path = os.path.join(self.voice_dir, filename)\<close>.
\<close>

definition voice_path :: "string \<Rightarrow> string" where
  "voice_path word = path_join voice_dir (word @ ''.mp3'')"

text \<open>The critical section at the end of \<open>play_voice\<close>.\<close>

definition enqueue :: "string \<Rightarrow> state \<Rightarrow> state" where
  "enqueue word s =
     (if word \<notin> generating_words s
      then s\<lparr>generation_queue := generation_queue s @ [word],
             generating_words := insert word (generating_words s)\<rparr>
      else s)"

text \<open>Step 3 of \<open>play_voice\<close>: set the request, then the critical section.\<close>

definition generate_async :: "string \<Rightarrow> state \<Rightarrow> state" where
  "generate_async word s = enqueue word (s\<lparr>pending_play := Some word\<rparr>)"

text \<open>Set the volume of a sound, store it under the word and play it.\<close>

definition cache_and_play :: "string \<Rightarrow> sound \<Rightarrow> state \<Rightarrow> state" where
  "cache_and_play word sound s =
     (let sound' = set_volume (volume_voice s) sound
      in s\<lparr>voice_cache := (voice_cache s)(word \<mapsto> sound'), played := played s @ [sound']\<rparr>)"

text \<open>A call of \<open>play_voice\<close> during which the worker thread takes no step.\<close>

definition play_voice :: "string \<Rightarrow> state \<Rightarrow> state" where
  "play_voice word0 s =
     (let word = normalize word0
      in if word = [] then s
         else case voice_cache s word of
                Some sound \<Rightarrow> cache_and_play word sound s
              | None \<Rightarrow>
                  (let path = voice_path word
                   in if read_file s path \<noteq> None
                      then (case load_sound s path of
                              Some sound \<Rightarrow> cache_and_play word sound s
                            | None \<Rightarrow> generate_async word s)
                      else generate_async word s))"

text \<open>
  The same call in the three steps between which the worker thread can run, since
  only the last lines of \<open>play_voice\<close> hold the lock. The first step ends after
  \<open>os.path.exists(path)\<close>: the memory cache belongs to the consumer thread, so the
  worker cannot come between the look into it and this test.
\<close>

definition request_begin :: "string \<Rightarrow> state \<Rightarrow> state" where
  "request_begin word0 s =
     (let word = normalize word0
      in if word = [] then s
         else case voice_cache s word of
                Some sound \<Rightarrow> cache_and_play word sound s
              | None \<Rightarrow>
                  (if read_file s (voice_path word) \<noteq> None
                   then s\<lparr>consumer := Loading word\<rparr>
                   else s\<lparr>consumer := Enqueuing word\<rparr>))"

text \<open>The second step: \<open>pygame.mixer.Sound(path)\<close> and what follows it in the \<open>try\<close>.\<close>

definition request_load :: "state \<Rightarrow> state" where
  "request_load s =
     (case consumer s of
        Loading word \<Rightarrow>
          (case load_sound s (voice_path word) of
             Some sound \<Rightarrow> cache_and_play word sound (s\<lparr>consumer := Ready\<rparr>)
           | None \<Rightarrow> s\<lparr>consumer := Enqueuing word\<rparr>)
      | _ \<Rightarrow> s)"

text \<open>The third step: \<open>self.pending_play = word\<close> and the critical section.\<close>

definition request_enqueue :: "state \<Rightarrow> state" where
  "request_enqueue s =
     (case consumer s of
        Enqueuing word \<Rightarrow> generate_async word (s\<lparr>consumer := Ready\<rparr>)
      | _ \<Rightarrow> s)"

subsection \<open>\<open>update\<close>\<close>

text \<open>
  One iteration of the loop of \<open>update\<close> after \<open>ready_queue.pop(0)\<close> has returned
  \<open>(word, path)\<close>: a sound that loads is stored, with the volume it was created with,
  and played if the word is the pending one; an exception is printed.
\<close>

definition handle_ready :: "string \<Rightarrow> string \<Rightarrow> state \<Rightarrow> state" where
  "handle_ready word path s =
     (case load_sound s path of
        Some sound \<Rightarrow>
          (let s1 = s\<lparr>voice_cache := (voice_cache s)(word \<mapsto> sound)\<rparr>
           in if pending_play s1 = Some word
              then s1\<lparr>played := played s1 @ [sound], pending_play := None\<rparr>
              else s1)
      | None \<Rightarrow> s)"

text \<open>
  A call of \<open>update\<close> during which the worker thread writes no file. The loop
  \<open>while self.ready_queue\<close> runs with the lock held, so that only its own \<open>pop(0)\<close> changes
  the queue: the first argument is the queue still to drain.
\<close>

fun drain :: "(string \<times> string) list \<Rightarrow> state \<Rightarrow> state" where
  "drain [] s = s"
| "drain ((word, path) # rest) s = drain rest (handle_ready word path (s\<lparr>ready_queue := rest\<rparr>))"

definition update :: "state \<Rightarrow> state" where
  "update s = drain (ready_queue s) s"

text \<open>
  The same call in steps: the lock does not keep the worker thread from writing a
  file between two iterations. \<open>poll_begin\<close> takes the lock; \<open>poll_step\<close> is the test of
  the loop with one iteration, or with the end of the loop and the release of the lock.
\<close>

definition poll_begin :: "state \<Rightarrow> state" where
  "poll_begin s = s\<lparr>consumer := Polling\<rparr>"

definition poll_step :: "state \<Rightarrow> state" where
  "poll_step s =
     (if consumer s = Polling
      then (case ready_queue s of
              [] \<Rightarrow> s\<lparr>consumer := Ready\<rparr>
            | (word, path) # rest \<Rightarrow> handle_ready word path (s\<lparr>ready_queue := rest\<rparr>))
      else s)"

subsection \<open>\<open>set_volume_voice\<close>\<close>

definition set_volume_voice :: "real \<Rightarrow> state \<Rightarrow> state" where
  "set_volume_voice vol s =
     (let v = max 0 (min 1 vol)
      in s\<lparr>volume_voice := v,
           voice_cache := (\<lambda>word. map_option (set_volume v) (voice_cache s word))\<rparr>)"

subsection \<open>The worker thread\<close>

text \<open>
  The first critical section of \<open>_generation_worker\<close> and the test that follows it:
  an empty queue leaves the worker to sleep, and so does a popped word that is the empty
  string, which \<open>if word_to_process\<close> takes for no word.
\<close>

definition worker_pop :: "state \<Rightarrow> state" where
  "worker_pop s =
     (if worker s = Idle
      then (case generation_queue s of
              [] \<Rightarrow> s
            | word # rest \<Rightarrow>
                s\<lparr>generation_queue := rest,
                  worker := (if word \<noteq> [] then Generating word else Idle)\<rparr>)
      else s)"

text \<open>
  What \<open>gTTS(text=word, lang='en')\<close> and \<open>tts.save(path)\<close> can do: write the speech of the
  word, or raise, with or without an unfinished file left under the path.
\<close>

datatype outcome = Synth_ok | Synth_fail bool

text \<open>
  The path that \<open>_generate_and_cache\<close> writes:
  \<open>filename = f"{word}.mp3"; path = os.path.join(self.voice_dir, filename)\<close>.
\<close>

definition generate_path :: "string \<Rightarrow> string" where
  "generate_path word = path_join voice_dir (word @ ''.mp3'')"

text \<open>
  \<open>tts.save(path)\<close> opens the file for writing before it asks the backend for the
  speech: until the speech is written, the file is empty.
\<close>

definition worker_open :: "state \<Rightarrow> state" where
  "worker_open s =
     (case worker s of
        Generating word \<Rightarrow> write_file (generate_path word) Corrupt s
      | _ \<Rightarrow> s)"

definition worker_generate :: "outcome \<Rightarrow> state \<Rightarrow> state" where
  "worker_generate out s =
     (case worker s of
        Generating word \<Rightarrow>
          (let path = generate_path word
           in case out of
                Synth_ok \<Rightarrow> (write_file path (Speech word) s)\<lparr>worker := Saved word path\<rparr>
              | Synth_fail partial \<Rightarrow>
                  (if partial then write_file path Corrupt s else s)\<lparr>worker := Failed word\<rparr>)
      | _ \<Rightarrow> s)"

text \<open>
  The critical section that ends \<open>_generate_and_cache\<close>: after a save, append the record
  and discard the word; in the exception handler, discard the word.
\<close>

definition worker_finish :: "state \<Rightarrow> state" where
  "worker_finish s =
     (case worker s of
        Saved word path \<Rightarrow>
          s\<lparr>ready_queue := ready_queue s @ [(word, path)],
            generating_words := generating_words s - {word},
            worker := Idle\<rparr>
      | Failed word \<Rightarrow> s\<lparr>generating_words := generating_words s - {word}, worker := Idle\<rparr>
      | _ \<Rightarrow> s)"

subsection \<open>Interleavings\<close>

text \<open>
  The consumer thread calls \<open>play_voice\<close>, \<open>update\<close> and \<open>set_volume_voice\<close>, one call after
  the other; the worker thread runs beside it. The two threads share the two queues
  and the set of words, which they touch only with the lock held, and the file system,
  which no lock protects. An event is a step of one thread that the other cannot
  come into: a critical section, a step on the consumer's own fields with at most one
  look at the file system, or one change of a file. \<open>Request\<close> and \<open>Poll\<close> are the calls
  that the worker does not come into; \<open>Request_begin\<close>, \<open>Request_load\<close> and
  \<open>Request_enqueue\<close>, and \<open>Poll_begin\<close> and \<open>Poll_step\<close>, are the steps of the calls that it
  does come into.
\<close>

datatype event =
    Request string
  | Request_begin string
  | Request_load
  | Request_enqueue
  | Poll
  | Poll_begin
  | Poll_step
  | Set_volume real
  | Worker_pop
  | Worker_open
  | Worker_generate outcome
  | Worker_finish

text \<open>
  The consumer starts a call only between two calls, and the critical sections of the
  worker wait while the consumer holds the lock; an event that cannot happen leaves
  the state as it is.
\<close>

fun exec :: "event \<Rightarrow> state \<Rightarrow> state" where
  "exec (Request word) s = (if consumer s = Ready then play_voice word s else s)"
| "exec (Request_begin word) s = (if consumer s = Ready then request_begin word s else s)"
| "exec Request_load s = request_load s"
| "exec Request_enqueue s = request_enqueue s"
| "exec Poll s = (if consumer s = Ready then update s else s)"
| "exec Poll_begin s = (if consumer s = Ready then poll_begin s else s)"
| "exec Poll_step s = poll_step s"
| "exec (Set_volume vol) s = (if consumer s = Ready then set_volume_voice vol s else s)"
| "exec Worker_pop s = (if consumer s = Polling then s else worker_pop s)"
| "exec Worker_open s = worker_open s"
| "exec (Worker_generate out) s = worker_generate out s"
| "exec Worker_finish s = (if consumer s = Polling then s else worker_finish s)"

fun run :: "event list \<Rightarrow> state \<Rightarrow> state" where
  "run [] s = s"
| "run (e # es) s = run es (exec e s)"

text \<open>
  The steps of the worker for one word whose synthesis succeeds: the pop, the save and
  the critical section that publishes the record.
\<close>

definition synthesise :: "event list" where
  "synthesise = [Worker_pop, Worker_generate Synth_ok, Worker_finish]"

inductive reachable :: "state \<Rightarrow> bool" where
  reachable_init: "reachable (init ok names files)"
| reachable_exec: "reachable s \<Longrightarrow> reachable (exec e s)"

subsection \<open>Invariants and example states\<close>

text \<open>The word the worker thread holds, if any.\<close>

fun worker_words :: "worker_pc \<Rightarrow> string set" where
  "worker_words Idle = {}"
| "worker_words (Generating w) = {w}"
| "worker_words (Saved w p) = {w}"
| "worker_words (Failed w) = {w}"

text \<open>The word of the call of \<open>play_voice\<close> that the consumer thread is in, if any.\<close>

fun consumer_words :: "consumer_pc \<Rightarrow> string set" where
  "consumer_words Ready = {}"
| "consumer_words (Loading w) = {w}"
| "consumer_words (Enqueuing w) = {w}"
| "consumer_words Polling = {}"

definition consistent :: "state \<Rightarrow> bool" where
  "consistent s \<longleftrightarrow>
     distinct (generation_queue s)
     \<and> generating_words s = set (generation_queue s) \<union> worker_words (worker s)
     \<and> worker_words (worker s) \<inter> set (generation_queue s) = {}
     \<and> [] \<notin> generating_words s
     \<and> [] \<notin> consumer_words (consumer s)"

text \<open>
  Every published record, and the worker past its save, has the path of its word.
\<close>

definition paths_derived :: "state \<Rightarrow> bool" where
  "paths_derived s \<longleftrightarrow>
     (\<forall>w p. (w, p) \<in> set (ready_queue s) \<longrightarrow> p = voice_path w)
     \<and> (\<forall>w p. worker s = Saved w p \<longrightarrow> p = voice_path w)"

text \<open>
  What holds as long as no synthesis has succeeded: nothing is ready, and no word that
  is being generated, or that the consumer is about to queue, can be played from the
  cache or from the disk.
\<close>

definition starved :: "state \<Rightarrow> bool" where
  "starved s \<longleftrightarrow>
     ready_queue s = []
     \<and> (\<forall>w p. worker s \<noteq> Saved w p)
     \<and> (\<forall>k. k \<in> generating_words s
           \<longrightarrow> voice_cache s k = None \<and> load_sound s (voice_path k) = None)
     \<and> (\<forall>k. k \<in> consumer_words (consumer s) \<longrightarrow> voice_cache s k = None)
     \<and> (\<forall>k. consumer s = Enqueuing k \<longrightarrow> load_sound s (voice_path k) = None)"

text \<open>
  A disk with three voice files, the state after each of the three words has been
  requested once, and the state after one request that misses every cache. In every
  example but the last, \<open>cat_aliased\<close>, each path names a file of its own.
\<close>

definition three_files :: "string \<rightharpoonup> audio_file" where
  "three_files =
     [''assets/voice/cat.mp3'' \<mapsto> Speech ''cat'',
      ''assets/voice/dog.mp3'' \<mapsto> Speech ''dog'',
      ''assets/voice/owl.mp3'' \<mapsto> Speech ''owl'']"

definition three_cached :: state where
  "three_cached =
     run [Request ''cat'', Request ''dog'', Request ''owl''] (init True id three_files)"

definition cat_requested :: state where
  "cat_requested = exec (Request ''Cat'') (init True id Map.empty)"


definition two_pending_failed :: state where
  "two_pending_failed =
     run [Request ''ant'', Request ''bee'', Worker_pop, Worker_generate (Synth_fail False),
          Worker_finish] (init True id Map.empty)"

definition ant_generating :: state where
  "ant_generating = run [Request ''ant'', Worker_pop] (init True id Map.empty)"

text \<open>
  Two words requested one after the other on an empty disk; the state after the first
  word has been synthesised; and the state after the first record has been polled and
  the second word synthesised.
\<close>

definition both_requested :: "bool \<Rightarrow> state" where
  "both_requested ok = run [Request ''Apple'', Request '' Bee ''] (init ok id Map.empty)"

definition apple_ready :: "bool \<Rightarrow> state" where
  "apple_ready ok = run synthesise (both_requested ok)"

definition bee_ready :: "bool \<Rightarrow> state" where
  "bee_ready ok = run synthesise (exec Poll (apple_ready ok))"

text \<open>A disk that holds the speech of one word, before any request.\<close>

definition cat_on_disk :: state where
  "cat_on_disk = init True id [''assets/voice/cat.mp3'' \<mapsto> Speech ''cat'']"

text \<open>
  A second call of \<open>play_voice\<close> for a word that is being generated finds no file, the
  worker then saves the file and publishes the record, and the call goes on into its
  critical section: the word is queued again, and the worker opens its file again
  before the consumer polls.
\<close>

definition cat_rewritten :: state where
  "cat_rewritten =
     run [Request ''cat'', Worker_pop, Request_begin ''cat'', Worker_generate Synth_ok,
          Worker_finish, Request_enqueue, Worker_pop, Worker_open] (init True id Map.empty)"

text \<open>
  A file system in which the paths of the two keys \<open>cat\<close> and \<open>./cat\<close> name one
  file, and the state in which the first word has been published and the second one
  saved.
\<close>

definition alias_names :: "string \<Rightarrow> string" where
  "alias_names path =
     (if path = ''assets/voice/./cat.mp3'' then ''assets/voice/cat.mp3'' else path)"

definition cat_aliased :: state where
  "cat_aliased =
     run [Request ''cat'', Request ''./cat'', Worker_pop, Worker_generate Synth_ok,
          Worker_finish, Worker_pop, Worker_generate Synth_ok] (init True alias_names Map.empty)"

section \<open>Properties\<close>

subsection \<open>Keys and paths\<close>

lemma normalize_Cat: "normalize ''Cat'' = ''cat''"
  by code_simp

lemma normalize_cat_spaces: "normalize '' cat '' = ''cat''"
  by code_simp

lemma normalize_words:
  "normalize ''cat'' = ''cat''" "normalize ''dog'' = ''dog''" "normalize ''owl'' = ''owl''"
  by code_simp+

lemma normalize_ant_bee: "normalize ''ant'' = ''ant''" "normalize ''bee'' = ''bee''"
  by code_simp+

lemma normalize_Apple_Bee: "normalize ''Apple'' = ''apple''" "normalize '' Bee '' = ''bee''"
  by code_simp+

lemma normalize_dot_cat: "normalize ''./cat'' = ''./cat''"
  unfolding normalize_def lower_def strip_def lower_char_def isspace_def Let_def by code_simp

lemma of_char_lower_char:
  "of_char (lower_char c) = (let n = (of_char c :: nat) in
     if (65 \<le> n \<and> n \<le> 90) \<or> (192 \<le> n \<and> n \<le> 222 \<and> n \<noteq> 215) then n + 32 else n)"
  by (auto simp: lower_char_def Let_def)

lemma isspace_lower_char: "isspace (lower_char c) = isspace c"
  unfolding isspace_def of_char_lower_char by (auto simp: Let_def)

lemma strip_Nil_iff: "strip w = [] \<longleftrightarrow> (\<forall>c \<in> set w. isspace c)"
proof
  assume "strip w = []"
  then have all: "\<forall>x \<in> set (dropWhile isspace w). isspace x"
    by (simp add: strip_def dropWhile_eq_Nil_conv)
  have "dropWhile isspace w = []"
  proof (rule ccontr)
    assume ne: "dropWhile isspace w \<noteq> []"
    then have "\<not> isspace (hd (dropWhile isspace w))" by (rule hd_dropWhile)
    moreover have "hd (dropWhile isspace w) \<in> set (dropWhile isspace w)" using ne by simp
    ultimately show False using all by blast
  qed
  then show "\<forall>c \<in> set w. isspace c" by (simp add: dropWhile_eq_Nil_conv)
next
  assume "\<forall>c \<in> set w. isspace c"
  then have d: "dropWhile isspace w = []" by (simp add: dropWhile_eq_Nil_conv)
  show "strip w = []" unfolding strip_def d by simp
qed

lemma normalize_Nil_iff: "normalize w = [] \<longleftrightarrow> (\<forall>c \<in> set w. isspace c)"
  by (simp add: normalize_def strip_Nil_iff lower_def isspace_lower_char)

lemma voice_dir_eq: "voice_dir = ''assets/voice''"
  by (simp add: voice_dir_def path_join_def)

lemma voice_path_eq:
  "voice_path w = (if w \<noteq> [] \<and> hd w = CHR ''/'' then w @ ''.mp3'' else ''assets/voice/'' @ w @ ''.mp3'')"
  by (cases w) (simp_all add: voice_path_def voice_dir_eq path_join_def)

lemma generate_path_voice_path: "generate_path w = voice_path w"
  by (simp add: generate_path_def voice_path_def)

lemma voice_path_cat: "voice_path ''cat'' = ''assets/voice/cat.mp3''"
  by (simp add: voice_path_eq)

subsection \<open>What each operation leaves unchanged\<close>

text \<open>
  Whether a path loads depends on the mixer and on the file system only.
\<close>

lemma load_sound_cong:
  "mixer_ok t = mixer_ok s \<Longrightarrow> file_of t = file_of s \<Longrightarrow> disk t = disk s
   \<Longrightarrow> load_sound t = load_sound s"
  by (rule ext) (simp add: load_sound_def read_file_def)

lemma read_file_cong:
  "file_of t = file_of s \<Longrightarrow> disk t = disk s \<Longrightarrow> read_file t = read_file s"
  by (rule ext) (simp add: read_file_def)

lemma load_sound_exists: "load_sound s path = Some sound \<Longrightarrow> read_file s path \<noteq> None"
  by (auto simp: load_sound_def split: if_splits option.splits)

lemma load_sound_upd:
  "load_sound (s\<lparr>consumer := c\<rparr>) = load_sound s"
  "load_sound (s\<lparr>worker := wk\<rparr>) = load_sound s"
  "load_sound (s\<lparr>generating_words := g\<rparr>) = load_sound s"
  "load_sound (s\<lparr>generation_queue := q\<rparr>) = load_sound s"
  "load_sound (s\<lparr>ready_queue := r\<rparr>) = load_sound s"
  "load_sound (s\<lparr>voice_cache := vc\<rparr>) = load_sound s"
  "load_sound (s\<lparr>pending_play := pp\<rparr>) = load_sound s"
  "load_sound (s\<lparr>played := pl\<rparr>) = load_sound s"
  "load_sound (s\<lparr>volume_voice := v\<rparr>) = load_sound s"
  by (rule ext, simp add: load_sound_def read_file_def)+

lemma write_file_frame:
  "ready_queue (write_file p c s) = ready_queue s"
  "generation_queue (write_file p c s) = generation_queue s"
  "generating_words (write_file p c s) = generating_words s"
  "worker (write_file p c s) = worker s"
  "consumer (write_file p c s) = consumer s"
  "voice_cache (write_file p c s) = voice_cache s"
  "pending_play (write_file p c s) = pending_play s"
  "played (write_file p c s) = played s"
  "mixer_ok (write_file p c s) = mixer_ok s"
  "file_of (write_file p c s) = file_of s"
  by (simp_all add: write_file_def)

lemma load_sound_write_corrupt:
  "load_sound s q = None \<Longrightarrow> load_sound (write_file p Corrupt s) q = None"
  by (auto simp: load_sound_def read_file_def write_file_def
      split: if_splits option.splits audio_file.splits)

lemma handle_ready_frame:
  "generation_queue (handle_ready w p s) = generation_queue s"
  "generating_words (handle_ready w p s) = generating_words s"
  "worker (handle_ready w p s) = worker s"
  "consumer (handle_ready w p s) = consumer s"
  "disk (handle_ready w p s) = disk s"
  "file_of (handle_ready w p s) = file_of s"
  "mixer_ok (handle_ready w p s) = mixer_ok s"
  "ready_queue (handle_ready w p s) = ready_queue s"
  "volume_voice (handle_ready w p s) = volume_voice s"
  "volume_bgm (handle_ready w p s) = volume_bgm s"
  "volume_se (handle_ready w p s) = volume_se s"
  by (simp_all add: handle_ready_def Let_def split: option.splits)

lemma drain_frame:
  "generation_queue (drain rs s) = generation_queue s"
  "generating_words (drain rs s) = generating_words s"
  "worker (drain rs s) = worker s"
  "consumer (drain rs s) = consumer s"
  "disk (drain rs s) = disk s"
  "file_of (drain rs s) = file_of s"
  "mixer_ok (drain rs s) = mixer_ok s"
  "volume_voice (drain rs s) = volume_voice s"
  "volume_bgm (drain rs s) = volume_bgm s"
  "volume_se (drain rs s) = volume_se s"
  by (induction rs s rule: drain.induct; simp add: handle_ready_frame)+

lemma drain_ready: "ready_queue (drain rs s) = (if rs = [] then ready_queue s else [])"
  by (induction rs s rule: drain.induct) (simp_all add: handle_ready_frame)

lemma update_frame:
  "generation_queue (update s) = generation_queue s"
  "generating_words (update s) = generating_words s"
  "worker (update s) = worker s"
  "consumer (update s) = consumer s"
  "disk (update s) = disk s"
  "file_of (update s) = file_of s"
  "mixer_ok (update s) = mixer_ok s"
  "volume_voice (update s) = volume_voice s"
  "volume_bgm (update s) = volume_bgm s"
  "volume_se (update s) = volume_se s"
  "ready_queue (update s) = []"
  by (simp_all add: update_def drain_frame drain_ready)

lemma poll_step_frame:
  "generation_queue (poll_step s) = generation_queue s"
  "generating_words (poll_step s) = generating_words s"
  "worker (poll_step s) = worker s"
  "disk (poll_step s) = disk s"
  "file_of (poll_step s) = file_of s"
  "mixer_ok (poll_step s) = mixer_ok s"
  by (simp_all add: poll_step_def handle_ready_frame split: list.splits prod.splits)

lemma cache_and_play_frame:
  "generation_queue (cache_and_play w sound s) = generation_queue s"
  "generating_words (cache_and_play w sound s) = generating_words s"
  "worker (cache_and_play w sound s) = worker s"
  "consumer (cache_and_play w sound s) = consumer s"
  "disk (cache_and_play w sound s) = disk s"
  "file_of (cache_and_play w sound s) = file_of s"
  "mixer_ok (cache_and_play w sound s) = mixer_ok s"
  "ready_queue (cache_and_play w sound s) = ready_queue s"
  "pending_play (cache_and_play w sound s) = pending_play s"
  by (simp_all add: cache_and_play_def Let_def)

lemma generate_async_frame:
  "worker (generate_async w s) = worker s"
  "consumer (generate_async w s) = consumer s"
  "disk (generate_async w s) = disk s"
  "file_of (generate_async w s) = file_of s"
  "mixer_ok (generate_async w s) = mixer_ok s"
  "ready_queue (generate_async w s) = ready_queue s"
  "voice_cache (generate_async w s) = voice_cache s"
  "played (generate_async w s) = played s"
  "pending_play (generate_async w s) = Some w"
  "generation_queue (generate_async w s) =
     (if w \<in> generating_words s then generation_queue s else generation_queue s @ [w])"
  "generating_words (generate_async w s) = insert w (generating_words s)"
  by (auto simp: generate_async_def enqueue_def)

subsection \<open>The three ways through \<open>play_voice\<close>\<close>

lemma play_voice_hit_or_miss:
  "play_voice w s = s
   \<or> (\<exists>sound. \<not> (voice_cache s (normalize w) = None
                   \<and> load_sound s (voice_path (normalize w)) = None)
        \<and> play_voice w s = cache_and_play (normalize w) sound s)
   \<or> (normalize w \<noteq> [] \<and> voice_cache s (normalize w) = None
       \<and> load_sound s (voice_path (normalize w)) = None
       \<and> play_voice w s = generate_async (normalize w) s)"
  by (auto simp: play_voice_def Let_def split: option.splits dest: load_sound_exists)

lemma play_voice_cases:
  "play_voice w s = s
   \<or> (\<exists>sound. play_voice w s = cache_and_play (normalize w) sound s)
   \<or> (normalize w \<noteq> [] \<and> voice_cache s (normalize w) = None
       \<and> load_sound s (voice_path (normalize w)) = None
       \<and> play_voice w s = generate_async (normalize w) s)"
  using play_voice_hit_or_miss [of w s] by blast

lemma play_voice_miss:
  assumes "normalize w = k" and "k \<noteq> []" and "voice_cache s k = None"
    and "load_sound s (voice_path k) = None"
  shows "play_voice w s = generate_async k s"
  using assms by (auto simp: play_voice_def Let_def split: option.splits)

lemma play_voice_memory_hit:
  assumes "normalize w = k" and "k \<noteq> []" and "voice_cache s k = Some sound"
  shows "play_voice w s = cache_and_play k sound s"
  using assms by (simp add: play_voice_def Let_def)

lemma play_voice_disk_hit:
  assumes "normalize w = k" and "k \<noteq> []" and "voice_cache s k = None"
    and "load_sound s (voice_path k) = Some sound"
  shows "play_voice w s = cache_and_play k sound s"
  using assms load_sound_exists [OF assms(4)] by (simp add: play_voice_def Let_def)

lemma play_voice_frame:
  "worker (play_voice w s) = worker s"
  "consumer (play_voice w s) = consumer s"
  "disk (play_voice w s) = disk s"
  "file_of (play_voice w s) = file_of s"
  "mixer_ok (play_voice w s) = mixer_ok s"
  "ready_queue (play_voice w s) = ready_queue s"
  using play_voice_cases [of w s]
  by (auto simp: cache_and_play_frame generate_async_frame)

lemma play_voice_queue:
  "generation_queue (play_voice w s) = generation_queue s
   \<or> (normalize w \<notin> generating_words s
       \<and> generation_queue (play_voice w s) = generation_queue s @ [normalize w])"
  using play_voice_cases [of w s]
  by (auto simp: cache_and_play_frame generate_async_frame)

lemma play_voice_twice_queue:
  "generation_queue (play_voice w (play_voice w s)) = generation_queue (play_voice w s)"
proof -
  let ?k = "normalize w"
  consider (same) "play_voice w s = s"
    | (hit) sound where "play_voice w s = cache_and_play ?k sound s"
    | (miss) "play_voice w s = generate_async ?k s" "?k \<noteq> []"
    using play_voice_cases [of w s] by blast
  then show ?thesis
  proof cases
    case same
    then show ?thesis by simp
  next
    case hit
    have "voice_cache (play_voice w s) ?k \<noteq> None"
      unfolding hit by (simp add: cache_and_play_def Let_def)
    then show ?thesis
      using play_voice_cases [of w "play_voice w s"]
      by (auto simp: cache_and_play_frame)
  next
    case miss
    have "?k \<in> generating_words (play_voice w s)"
      unfolding miss by (simp add: generate_async_frame)
    then show ?thesis
      using play_voice_cases [of w "play_voice w s"]
      by (auto simp: cache_and_play_frame generate_async_frame)
  qed
qed

subsection \<open>The steps of a call and the whole call\<close>

text \<open>
  When the worker takes no step in between, the three steps of a request are the call
  \<open>play_voice\<close>, and the steps of a poll are the call \<open>update\<close>.
\<close>

lemma request_begin_cases:
  "request_begin w s = s
   \<or> (\<exists>sound. voice_cache s (normalize w) = Some sound
        \<and> request_begin w s = cache_and_play (normalize w) sound s)
   \<or> (normalize w \<noteq> [] \<and> voice_cache s (normalize w) = None
       \<and> request_begin w s = s\<lparr>consumer := Loading (normalize w)\<rparr>)
   \<or> (normalize w \<noteq> [] \<and> voice_cache s (normalize w) = None
       \<and> load_sound s (voice_path (normalize w)) = None
       \<and> request_begin w s = s\<lparr>consumer := Enqueuing (normalize w)\<rparr>)"
  by (auto simp: request_begin_def Let_def split: option.splits dest: load_sound_exists)

lemma request_load_cases:
  "request_load s = s
   \<or> (\<exists>w sound. consumer s = Loading w \<and> load_sound s (voice_path w) = Some sound
        \<and> request_load s = cache_and_play w sound (s\<lparr>consumer := Ready\<rparr>))
   \<or> (\<exists>w. consumer s = Loading w \<and> load_sound s (voice_path w) = None
        \<and> request_load s = s\<lparr>consumer := Enqueuing w\<rparr>)"
  by (auto simp: request_load_def split: consumer_pc.splits option.splits)

lemma request_enqueue_cases:
  "request_enqueue s = s
   \<or> (\<exists>w. consumer s = Enqueuing w
        \<and> request_enqueue s = generate_async w (s\<lparr>consumer := Ready\<rparr>))"
  by (auto simp: request_enqueue_def split: consumer_pc.splits)

lemma request_begin_frame:
  "generation_queue (request_begin w s) = generation_queue s"
  "generating_words (request_begin w s) = generating_words s"
  "ready_queue (request_begin w s) = ready_queue s"
  "worker (request_begin w s) = worker s"
  using request_begin_cases [of w s] by (auto simp: cache_and_play_frame)

lemma request_load_frame:
  "generation_queue (request_load s) = generation_queue s"
  "generating_words (request_load s) = generating_words s"
  "ready_queue (request_load s) = ready_queue s"
  "worker (request_load s) = worker s"
  using request_load_cases [of s] by (auto simp: cache_and_play_frame)

lemma request_uninterrupted:
  assumes "consumer s = Ready"
  shows "run [Request_begin w, Request_load, Request_enqueue] s = play_voice w s"
proof -
  have "s\<lparr>consumer := consumer s\<rparr> = s" by simp
  then have r: "s\<lparr>consumer := Ready\<rparr> = s" by (simp only: assms)
  show ?thesis
    using assms
    by (auto simp: request_begin_def request_load_def request_enqueue_def play_voice_def
        Let_def cache_and_play_frame load_sound_def read_file_def r
        split: option.splits audio_file.splits)
qed

lemma poll_steps_drain:
  assumes "consumer t = Polling" and "ready_queue t = rs"
  shows "run (replicate (Suc (length rs)) Poll_step) t = (drain rs t)\<lparr>consumer := Ready\<rparr>"
  using assms
proof (induction rs arbitrary: t)
  case Nil
  then show ?case by (simp add: poll_step_def)
next
  case (Cons r rs)
  obtain word path where r: "r = (word, path)" by (cases r)
  let ?t = "handle_ready word path (t\<lparr>ready_queue := rs\<rparr>)"
  have step: "poll_step t = ?t" using Cons.prems by (simp add: poll_step_def r)
  have "consumer ?t = Polling" "ready_queue ?t = rs"
    using Cons.prems by (simp_all add: handle_ready_frame)
  then have "run (replicate (Suc (length rs)) Poll_step) ?t = (drain rs ?t)\<lparr>consumer := Ready\<rparr>"
    by (rule Cons.IH)
  then show ?case using step by (simp add: r)
qed

lemma handle_ready_consumer:
  "handle_ready w p (s\<lparr>consumer := c\<rparr>) = (handle_ready w p s)\<lparr>consumer := c\<rparr>"
  by (simp add: handle_ready_def load_sound_def read_file_def Let_def
      split: option.splits audio_file.splits)

lemma drain_consumer: "drain rs (s\<lparr>consumer := c\<rparr>) = (drain rs s)\<lparr>consumer := c\<rparr>"
proof (induction rs s rule: drain.induct)
  case (1 s)
  show ?case by simp
next
  case (2 word path rest s)
  have "handle_ready word path (s\<lparr>consumer := c, ready_queue := rest\<rparr>)
      = (handle_ready word path (s\<lparr>ready_queue := rest\<rparr>))\<lparr>consumer := c\<rparr>"
    by (simp add: handle_ready_def load_sound_def read_file_def Let_def
        split: option.splits audio_file.splits)
  then show ?case using 2 by simp
qed

lemma poll_uninterrupted:
  assumes "consumer s = Ready"
  shows "run (Poll_begin # replicate (Suc (length (ready_queue s))) Poll_step) s = update s"
proof -
  let ?t = "poll_begin s"
  have "run (replicate (Suc (length (ready_queue s))) Poll_step) ?t
      = (drain (ready_queue s) ?t)\<lparr>consumer := Ready\<rparr>"
    by (rule poll_steps_drain) (simp_all add: poll_begin_def)
  also have "\<dots> = (drain (ready_queue s) s)\<lparr>consumer := Ready\<rparr>"
    by (simp add: poll_begin_def drain_consumer)
  also have "\<dots> = drain (ready_queue s) (s\<lparr>consumer := Ready\<rparr>)"
    by (simp add: drain_consumer)
  also have "s\<lparr>consumer := Ready\<rparr> = s"
  proof -
    have "s\<lparr>consumer := consumer s\<rparr> = s" by simp
    then show ?thesis by (simp only: assms)
  qed
  finally show ?thesis using assms by (simp add: update_def)
qed

subsection \<open>The queue and the generating set\<close>

lemma consistent_init: "consistent (init ok names files)"
  by (simp add: consistent_def init_def)

lemma consistent_cache_and_play: "consistent s \<Longrightarrow> consistent (cache_and_play k sound s)"
  by (auto simp: consistent_def cache_and_play_frame)

lemma consistent_generate_async:
  "consistent s \<Longrightarrow> k \<noteq> [] \<Longrightarrow> consistent (generate_async k s)"
  by (auto simp: consistent_def generate_async_frame split: if_splits)

lemma consistent_consumer:
  "consistent s \<Longrightarrow> [] \<notin> consumer_words c \<Longrightarrow> consistent (s\<lparr>consumer := c\<rparr>)"
  by (auto simp: consistent_def)

lemma consistent_play_voice: "consistent s \<Longrightarrow> consistent (play_voice w s)"
  using play_voice_cases [of w s]
  by (auto simp: consistent_cache_and_play consistent_generate_async)

lemma consistent_request_begin: "consistent s \<Longrightarrow> consistent (request_begin w s)"
  using request_begin_cases [of w s]
  by (auto simp: consistent_cache_and_play consistent_consumer)

lemma consistent_request_load:
  assumes "consistent s"
  shows "consistent (request_load s)"
  using request_load_cases [of s]
proof (elim disjE exE conjE)
  assume "request_load s = s"
  then show ?thesis using assms by simp
next
  fix w sound
  assume eq: "request_load s = cache_and_play w sound (s\<lparr>consumer := Ready\<rparr>)"
  have "consistent (s\<lparr>consumer := Ready\<rparr>)"
    using assms by (intro consistent_consumer) simp_all
  then show ?thesis unfolding eq by (rule consistent_cache_and_play)
next
  fix w
  assume pc: "consumer s = Loading w" and eq: "request_load s = s\<lparr>consumer := Enqueuing w\<rparr>"
  have "w \<noteq> []" using assms pc by (auto simp: consistent_def)
  then show ?thesis unfolding eq using assms by (intro consistent_consumer) simp_all
qed

lemma consistent_request_enqueue:
  assumes "consistent s"
  shows "consistent (request_enqueue s)"
  using request_enqueue_cases [of s]
proof (elim disjE exE conjE)
  assume "request_enqueue s = s"
  then show ?thesis using assms by simp
next
  fix w
  assume pc: "consumer s = Enqueuing w"
    and eq: "request_enqueue s = generate_async w (s\<lparr>consumer := Ready\<rparr>)"
  have "w \<noteq> []" using assms pc by (auto simp: consistent_def)
  moreover have "consistent (s\<lparr>consumer := Ready\<rparr>)"
    using assms by (intro consistent_consumer) simp_all
  ultimately show ?thesis unfolding eq by (intro consistent_generate_async)
qed

lemma consistent_update: "consistent s \<Longrightarrow> consistent (update s)"
  by (auto simp: consistent_def update_frame)

lemma consistent_poll_begin: "consistent s \<Longrightarrow> consistent (poll_begin s)"
  by (auto simp: consistent_def poll_begin_def)

lemma consistent_poll_step: "consistent s \<Longrightarrow> consistent (poll_step s)"
  by (auto simp: consistent_def poll_step_def handle_ready_frame split: list.splits)

lemma consistent_set_volume: "consistent s \<Longrightarrow> consistent (set_volume_voice v s)"
  by (auto simp: consistent_def set_volume_voice_def Let_def)

lemma consistent_worker_pop: "consistent s \<Longrightarrow> consistent (worker_pop s)"
  by (auto simp: consistent_def worker_pop_def split: list.splits)

lemma consistent_worker_open: "consistent s \<Longrightarrow> consistent (worker_open s)"
  by (auto simp: consistent_def worker_open_def write_file_def split: worker_pc.splits)

lemma consistent_worker_generate: "consistent s \<Longrightarrow> consistent (worker_generate out s)"
  by (auto simp: consistent_def worker_generate_def write_file_def Let_def
      split: worker_pc.splits outcome.splits)

lemma consistent_worker_finish: "consistent s \<Longrightarrow> consistent (worker_finish s)"
  by (auto simp: consistent_def worker_finish_def split: worker_pc.splits)

lemma consistent_exec: "consistent s \<Longrightarrow> consistent (exec e s)"
  by (cases e)
     (simp_all add: consistent_play_voice consistent_request_begin consistent_request_load
        consistent_request_enqueue consistent_update consistent_poll_begin consistent_poll_step
        consistent_set_volume consistent_worker_pop consistent_worker_open
        consistent_worker_generate consistent_worker_finish)

lemma consistent_run: "consistent s \<Longrightarrow> consistent (run es s)"
  by (induction es arbitrary: s) (simp_all add: consistent_exec)

lemma reachable_consistent: "reachable s \<Longrightarrow> consistent s"
  by (induction rule: reachable.induct) (simp_all add: consistent_init consistent_exec)

lemma reachable_run: "reachable s \<Longrightarrow> reachable (run es s)"
  by (induction es arbitrary: s) (simp_all add: reachable_exec)

lemma not_longer: "q \<noteq> q @ [k]"
proof
  assume "q = q @ [k]"
  then have "length q = length (q @ [k])" by simp
  then show False by simp
qed

lemma generate_async_enters:
  "(k \<notin> generating_words s \<and> k \<in> generating_words (generate_async w s))
   \<longleftrightarrow> generation_queue (generate_async w s) = generation_queue s @ [k]"
  by (auto simp: generate_async_frame not_longer)

lemma play_voice_enters:
  "(k \<notin> generating_words s \<and> k \<in> generating_words (play_voice w s))
   \<longleftrightarrow> generation_queue (play_voice w s) = generation_queue s @ [k]"
  using play_voice_cases [of w s] generate_async_enters [of k s "normalize w"]
  by (auto simp: cache_and_play_frame not_longer)

lemma request_enqueue_enters:
  "(k \<notin> generating_words s \<and> k \<in> generating_words (request_enqueue s))
   \<longleftrightarrow> generation_queue (request_enqueue s) = generation_queue s @ [k]"
  using request_enqueue_cases [of s]
proof (elim disjE exE conjE)
  assume "request_enqueue s = s"
  then show ?thesis by (simp add: not_longer)
next
  fix w
  assume eq: "request_enqueue s = generate_async w (s\<lparr>consumer := Ready\<rparr>)"
  show ?thesis
    unfolding eq using generate_async_enters [of k "s\<lparr>consumer := Ready\<rparr>" w] by simp
qed

lemma exec_enters:
  "(k \<notin> generating_words s \<and> k \<in> generating_words (exec e s))
   \<longleftrightarrow> generation_queue (exec e s) = generation_queue s @ [k]"
proof (cases e)
  case (Request w)
  then show ?thesis by (simp add: play_voice_enters not_longer)
next
  case (Request_begin w)
  then show ?thesis by (simp add: request_begin_frame not_longer)
next
  case Request_load
  then show ?thesis by (simp add: request_load_frame not_longer)
next
  case Request_enqueue
  then show ?thesis by (simp add: request_enqueue_enters)
next
  case Poll
  then show ?thesis by (simp add: update_frame not_longer)
next
  case Poll_begin
  then show ?thesis by (simp add: poll_begin_def not_longer)
next
  case Poll_step
  then show ?thesis by (simp add: poll_step_frame not_longer)
next
  case (Set_volume v)
  then show ?thesis by (simp add: set_volume_voice_def Let_def not_longer)
next
  case Worker_pop
  have "rest \<noteq> (w # rest) @ [k]" for w and rest :: "string list"
  proof
    assume "rest = (w # rest) @ [k]"
    then have "length rest = length ((w # rest) @ [k])" by simp
    then show False by simp
  qed
  then show ?thesis
    unfolding Worker_pop exec.simps
    by (auto simp: worker_pop_def not_longer split: list.splits)
next
  case Worker_open
  then show ?thesis
    by (auto simp: worker_open_def write_file_def not_longer split: worker_pc.splits)
next
  case (Worker_generate out)
  then show ?thesis
    by (auto simp: worker_generate_def write_file_def Let_def not_longer
        split: worker_pc.splits outcome.splits)
next
  case Worker_finish
  then show ?thesis
    by (auto simp: worker_finish_def not_longer split: worker_pc.splits)
qed

lemma exec_leaves:
  assumes "k \<in> generating_words s" and "k \<notin> generating_words (exec e s)"
  shows "e = Worker_finish \<and> ((\<exists>p. worker s = Saved k p) \<or> worker s = Failed k)"
proof (cases e)
  case (Request w)
  show ?thesis
    using assms play_voice_cases [of w s] unfolding Request exec.simps
    by (auto simp: cache_and_play_frame generate_async_frame split: if_splits)
next
  case (Request_begin w)
  then show ?thesis using assms by (simp add: request_begin_frame split: if_splits)
next
  case Request_load
  then show ?thesis using assms by (simp add: request_load_frame)
next
  case Request_enqueue
  show ?thesis
    using assms request_enqueue_cases [of s] unfolding Request_enqueue exec.simps
    by (auto simp: generate_async_frame)
next
  case Poll
  then show ?thesis using assms by (simp add: update_frame split: if_splits)
next
  case Poll_begin
  then show ?thesis using assms by (simp add: poll_begin_def split: if_splits)
next
  case Poll_step
  then show ?thesis using assms by (simp add: poll_step_frame)
next
  case (Set_volume v)
  then show ?thesis using assms by (simp add: set_volume_voice_def Let_def split: if_splits)
next
  case Worker_pop
  then show ?thesis using assms by (auto simp: worker_pop_def split: list.splits if_splits)
next
  case Worker_open
  then show ?thesis using assms
    by (auto simp: worker_open_def write_file_def split: worker_pc.splits)
next
  case (Worker_generate out)
  then show ?thesis using assms
    by (auto simp: worker_generate_def write_file_def Let_def
        split: worker_pc.splits outcome.splits if_splits)
next
  case Worker_finish
  then show ?thesis using assms
    by (auto simp: worker_finish_def split: worker_pc.splits if_splits)
qed

subsection \<open>Published records and their paths\<close>

lemma paths_derived_init: "paths_derived (init ok names files)"
  by (simp add: paths_derived_def init_def)

lemma paths_derived_exec: "paths_derived s \<Longrightarrow> paths_derived (exec e s)"
proof (cases e)
  case (Request w)
  assume "paths_derived s"
  then show ?thesis unfolding Request by (simp add: paths_derived_def play_voice_frame)
next
  case (Request_begin w)
  assume "paths_derived s"
  then show ?thesis
    unfolding Request_begin using request_begin_cases [of w s]
    by (auto simp: paths_derived_def cache_and_play_frame)
next
  case Request_load
  assume "paths_derived s"
  then show ?thesis
    unfolding Request_load using request_load_cases [of s]
    by (auto simp: paths_derived_def cache_and_play_frame)
next
  case Request_enqueue
  assume "paths_derived s"
  then show ?thesis
    unfolding Request_enqueue using request_enqueue_cases [of s]
    by (auto simp: paths_derived_def generate_async_frame)
next
  case Poll
  assume "paths_derived s"
  then show ?thesis unfolding Poll by (simp add: paths_derived_def update_frame)
next
  case Poll_begin
  assume "paths_derived s"
  then show ?thesis unfolding Poll_begin by (simp add: paths_derived_def poll_begin_def)
next
  case Poll_step
  assume "paths_derived s"
  then show ?thesis
    unfolding Poll_step
    by (auto simp: paths_derived_def poll_step_def handle_ready_frame split: list.splits)
next
  case (Set_volume v)
  assume "paths_derived s"
  then show ?thesis
    unfolding Set_volume by (simp add: paths_derived_def set_volume_voice_def Let_def)
next
  case Worker_pop
  assume "paths_derived s"
  then show ?thesis
    unfolding Worker_pop by (auto simp: paths_derived_def worker_pop_def split: list.splits)
next
  case Worker_open
  assume "paths_derived s"
  then show ?thesis
    unfolding Worker_open
    by (auto simp: paths_derived_def worker_open_def write_file_def split: worker_pc.splits)
next
  case (Worker_generate out)
  assume "paths_derived s"
  then show ?thesis
    unfolding Worker_generate
    by (auto simp: paths_derived_def worker_generate_def write_file_def Let_def
        generate_path_voice_path split: worker_pc.splits outcome.splits)
next
  case Worker_finish
  assume "paths_derived s"
  then show ?thesis
    unfolding Worker_finish
    by (auto simp: paths_derived_def worker_finish_def split: worker_pc.splits)
qed

lemma reachable_paths_derived: "reachable s \<Longrightarrow> paths_derived s"
  by (induction rule: reachable.induct) (simp_all add: paths_derived_init paths_derived_exec)

lemma same_path:
  assumes "reachable s" and "(k, p) \<in> set (ready_queue s)" and "(k, q) \<in> set (ready_queue s)"
  shows "q = p"
  using reachable_paths_derived [OF assms(1)] assms(2,3) unfolding paths_derived_def by blast

subsection \<open>A backend that has never succeeded\<close>

lemma starved_init: "starved (init ok names files)"
  by (simp add: starved_def init_def)

lemma starved_cache_and_play:
  assumes "starved s" and "k \<notin> generating_words s" and "consumer s = Ready"
  shows "starved (cache_and_play k sound s)"
proof -
  have l: "load_sound (cache_and_play k sound s) = load_sound s"
    by (rule load_sound_cong) (simp_all add: cache_and_play_frame)
  have c: "voice_cache (cache_and_play k sound s) v = None" if "v \<in> generating_words s" for v
  proof -
    have "v \<noteq> k" using that assms(2) by auto
    moreover have "voice_cache s v = None" using that assms(1) unfolding starved_def by auto
    ultimately show ?thesis by (simp add: cache_and_play_def Let_def)
  qed
  show ?thesis
    using assms(1) c unfolding starved_def l cache_and_play_frame by (simp add: assms(3))
qed

lemma starved_generate_async:
  assumes "starved s" and "voice_cache s k = None" and "load_sound s (voice_path k) = None"
  shows "starved (generate_async k s)"
proof -
  have l: "load_sound (generate_async k s) = load_sound s"
    by (rule load_sound_cong) (simp_all add: generate_async_frame)
  show ?thesis
    using assms unfolding starved_def l generate_async_frame by auto
qed

lemma starved_consumer_ready: "starved s \<Longrightarrow> starved (s\<lparr>consumer := Ready\<rparr>)"
  by (simp add: starved_def load_sound_upd)

lemma starved_play_voice:
  assumes "starved s" and "consumer s = Ready"
  shows "starved (play_voice w s)"
  using play_voice_hit_or_miss [of w s]
proof (elim disjE exE conjE)
  assume "play_voice w s = s"
  then show ?thesis using assms by simp
next
  fix sound
  assume hit: "\<not> (voice_cache s (normalize w) = None
      \<and> load_sound s (voice_path (normalize w)) = None)"
    and eq: "play_voice w s = cache_and_play (normalize w) sound s"
  have "normalize w \<notin> generating_words s"
    using hit assms unfolding starved_def by auto
  then show ?thesis unfolding eq using assms by (intro starved_cache_and_play)
next
  assume "voice_cache s (normalize w) = None"
    and "load_sound s (voice_path (normalize w)) = None"
    and eq: "play_voice w s = generate_async (normalize w) s"
  then show ?thesis unfolding eq using assms by (intro starved_generate_async)
qed

lemma starved_request_begin:
  assumes "starved s" and "consumer s = Ready"
  shows "starved (request_begin w s)"
  using request_begin_cases [of w s]
proof (elim disjE exE conjE)
  assume "request_begin w s = s"
  then show ?thesis using assms by simp
next
  fix sound
  assume hit: "voice_cache s (normalize w) = Some sound"
    and eq: "request_begin w s = cache_and_play (normalize w) sound s"
  have "normalize w \<notin> generating_words s"
    using hit assms unfolding starved_def by auto
  then show ?thesis unfolding eq using assms by (intro starved_cache_and_play)
next
  assume "voice_cache s (normalize w) = None"
    and eq: "request_begin w s = s\<lparr>consumer := Loading (normalize w)\<rparr>"
  then show ?thesis
    unfolding eq using assms by (auto simp: starved_def load_sound_upd)
next
  assume "voice_cache s (normalize w) = None"
    and "load_sound s (voice_path (normalize w)) = None"
    and eq: "request_begin w s = s\<lparr>consumer := Enqueuing (normalize w)\<rparr>"
  then show ?thesis
    unfolding eq using assms by (auto simp: starved_def load_sound_upd)
qed

lemma starved_request_load:
  assumes "starved s"
  shows "starved (request_load s)"
  using request_load_cases [of s]
proof (elim disjE exE conjE)
  assume "request_load s = s"
  then show ?thesis using assms by simp
next
  fix w sound
  assume load: "load_sound s (voice_path w) = Some sound"
    and eq: "request_load s = cache_and_play w sound (s\<lparr>consumer := Ready\<rparr>)"
  have "w \<notin> generating_words s" using load assms unfolding starved_def by auto
  then show ?thesis
    unfolding eq using assms by (intro starved_cache_and_play starved_consumer_ready) simp_all
next
  fix w
  assume "consumer s = Loading w" and "load_sound s (voice_path w) = None"
    and eq: "request_load s = s\<lparr>consumer := Enqueuing w\<rparr>"
  then show ?thesis
    unfolding eq using assms by (auto simp: starved_def load_sound_upd)
qed

lemma starved_request_enqueue:
  assumes "starved s"
  shows "starved (request_enqueue s)"
  using request_enqueue_cases [of s]
proof (elim disjE exE conjE)
  assume "request_enqueue s = s"
  then show ?thesis using assms by simp
next
  fix w
  assume pc: "consumer s = Enqueuing w"
    and eq: "request_enqueue s = generate_async w (s\<lparr>consumer := Ready\<rparr>)"
  have "voice_cache s w = None" "load_sound s (voice_path w) = None"
    using assms pc unfolding starved_def by auto
  then show ?thesis
    unfolding eq using assms
    by (intro starved_generate_async starved_consumer_ready)
       (simp_all add: load_sound_upd)
qed

lemma starved_update: "starved s \<Longrightarrow> starved (update s)"
  by (simp add: starved_def update_def)

lemma starved_poll_begin: "starved s \<Longrightarrow> consumer s = Ready \<Longrightarrow> starved (poll_begin s)"
  by (simp add: starved_def poll_begin_def load_sound_upd)

lemma starved_poll_step: "starved s \<Longrightarrow> starved (poll_step s)"
  by (auto simp: starved_def poll_step_def load_sound_upd)

lemma starved_set_volume:
  assumes "starved s"
  shows "starved (set_volume_voice v s)"
proof -
  have l: "load_sound (set_volume_voice v s) = load_sound s"
    by (rule load_sound_cong) (simp_all add: set_volume_voice_def Let_def)
  show ?thesis
    using assms unfolding starved_def l by (simp add: set_volume_voice_def Let_def)
qed

lemma starved_worker_pop: "starved s \<Longrightarrow> starved (worker_pop s)"
  by (auto simp: starved_def worker_pop_def load_sound_upd split: list.splits)

lemma starved_write_corrupt:
  assumes "starved s"
  shows "starved (write_file p Corrupt s)"
  using assms unfolding starved_def write_file_frame
  by (auto intro: load_sound_write_corrupt)

lemma starved_worker: "starved s \<Longrightarrow> (\<And>w p. c \<noteq> Saved w p) \<Longrightarrow> starved (s\<lparr>worker := c\<rparr>)"
  by (simp add: starved_def load_sound_upd)

lemma starved_worker_open: "starved s \<Longrightarrow> starved (worker_open s)"
  by (simp add: worker_open_def starved_write_corrupt split: worker_pc.splits)

lemma starved_worker_fail: "starved s \<Longrightarrow> starved (worker_generate (Synth_fail partial) s)"
  by (auto simp: worker_generate_def Let_def starved_write_corrupt starved_worker
      split: worker_pc.splits)

lemma starved_worker_finish: "starved s \<Longrightarrow> starved (worker_finish s)"
  by (auto simp: starved_def worker_finish_def load_sound_upd split: worker_pc.splits)

lemma starved_exec:
  "starved s \<Longrightarrow> e \<noteq> Worker_generate Synth_ok \<Longrightarrow> starved (exec e s)"
proof (cases e)
  case (Worker_generate out)
  assume "starved s" "e \<noteq> Worker_generate Synth_ok"
  then show ?thesis using Worker_generate by (cases out) (simp_all add: starved_worker_fail)
qed (simp_all add: starved_play_voice starved_request_begin starved_request_load
       starved_request_enqueue starved_update starved_poll_begin starved_poll_step
       starved_set_volume starved_worker_pop starved_worker_open starved_worker_finish)

lemma starved_run:
  "starved s \<Longrightarrow> Worker_generate Synth_ok \<notin> set es \<Longrightarrow> starved (run es s)"
  by (induction es arbitrary: s) (auto simp: starved_exec)

subsection \<open>Draining the ready queue\<close>

lemma load_sound_handle_ready: "load_sound (handle_ready w p s) = load_sound s"
  by (rule load_sound_cong) (simp_all add: handle_ready_frame)

lemma handle_ready_loaded:
  assumes "load_sound s p = Some sound"
  shows "handle_ready w p s =
     (if pending_play s = Some w
      then s\<lparr>voice_cache := (voice_cache s)(w \<mapsto> sound), played := played s @ [sound],
             pending_play := None\<rparr>
      else s\<lparr>voice_cache := (voice_cache s)(w \<mapsto> sound)\<rparr>)"
  using assms by (simp add: handle_ready_def Let_def)

lemma handle_ready_failed: "load_sound s p = None \<Longrightarrow> handle_ready w p s = s"
  by (simp add: handle_ready_def)

lemma handle_ready_other:
  assumes "pending_play s \<noteq> Some w"
  shows "played (handle_ready w p s) = played s"
    and "pending_play (handle_ready w p s) = pending_play s"
  using assms by (simp_all add: handle_ready_def Let_def split: option.splits)

lemma handle_ready_cache_other: "k \<noteq> w \<Longrightarrow> voice_cache (handle_ready w p s) k = voice_cache s k"
  by (simp add: handle_ready_def Let_def split: option.splits)

lemma drain_cache_other:
  "k \<notin> fst ` set rs \<Longrightarrow> voice_cache (drain rs s) k = voice_cache s k"
  by (induction rs s rule: drain.induct) (auto simp: handle_ready_cache_other)

lemma drain_no_target:
  assumes "\<forall>w \<in> fst ` set rs. pending_play s \<noteq> Some w"
  shows "played (drain rs s) = played s \<and> pending_play (drain rs s) = pending_play s"
  using assms
proof (induction rs s rule: drain.induct)
  case (1 s)
  show ?case by simp
next
  case (2 word path rest s)
  let ?s = "handle_ready word path (s\<lparr>ready_queue := rest\<rparr>)"
  have nt: "pending_play (s\<lparr>ready_queue := rest\<rparr>) \<noteq> Some word" using 2(2) by simp
  have same: "played ?s = played s" "pending_play ?s = pending_play s"
    using handle_ready_other [OF nt, of path] by simp_all
  have "\<forall>w \<in> fst ` set rest. pending_play ?s \<noteq> Some w" using 2(2) same by simp
  then show ?case using 2(1) same by simp
qed

lemma drain_loaded:
  assumes "\<forall>p. (k, p) \<in> set rs \<longrightarrow> load_sound s p = Some sound" and "k \<in> fst ` set rs"
  shows "voice_cache (drain rs s) k = Some sound"
  using assms
proof (induction rs s rule: drain.induct)
  case (1 s)
  then show ?case by simp
next
  case (2 word path rest s)
  let ?s = "handle_ready word path (s\<lparr>ready_queue := rest\<rparr>)"
  have loads: "\<forall>p. (k, p) \<in> set rest \<longrightarrow> load_sound ?s p = Some sound"
    using 2(2) by (simp add: load_sound_handle_ready load_sound_upd)
  show ?case
  proof (cases "k \<in> fst ` set rest")
    case True
    then show ?thesis using 2(1) [OF loads] by simp
  next
    case False
    then have kw: "k = word" using 2(3) by force
    have "load_sound (s\<lparr>ready_queue := rest\<rparr>) path = Some sound"
      using 2(2) kw by (simp add: load_sound_upd)
    then have "voice_cache ?s k = Some sound"
      by (simp add: handle_ready_def Let_def kw)
    then show ?thesis using drain_cache_other [OF False] by simp
  qed
qed


lemma drain_target:
  assumes "pending_play s = Some k"
    and "\<forall>p. (k, p) \<in> set rs \<longrightarrow> load_sound s p = Some sound" and "k \<in> fst ` set rs"
  shows "played (drain rs s) = played s @ [sound] \<and> pending_play (drain rs s) = None"
  using assms
proof (induction rs s rule: drain.induct)
  case (1 s)
  then show ?case by simp
next
  case (2 word path rest s)
  let ?t = "s\<lparr>ready_queue := rest\<rparr>"
  let ?s = "handle_ready word path ?t"
  show ?case
  proof (cases "word = k")
    case True
    have "load_sound ?t path = Some sound" using 2(3) True by (simp add: load_sound_upd)
    then have "played ?s = played s @ [sound]" "pending_play ?s = None"
      using 2(2) True by (simp_all add: handle_ready_loaded)
    moreover have "played (drain rest ?s) = played ?s \<and> pending_play (drain rest ?s) = pending_play ?s"
      using \<open>pending_play ?s = None\<close> by (intro drain_no_target) simp
    ultimately show ?thesis by simp
  next
    case False
    have nt: "pending_play ?t \<noteq> Some word" using 2(2) False by simp
    have same: "played ?s = played s" "pending_play ?s = Some k"
      using handle_ready_other [OF nt, of path] 2(2) by simp_all
    have loads: "\<forall>p. (k, p) \<in> set rest \<longrightarrow> load_sound ?s p = Some sound"
      using 2(3) by (simp add: load_sound_handle_ready load_sound_upd)
    have "k \<in> fst ` set rest" using 2(4) False by force
    then show ?thesis using 2(1) [OF same(2) loads] same by simp
  qed
qed


lemma worker_keeps_target:
  assumes "e = Worker_pop \<or> e = Worker_open \<or> e = Worker_generate out \<or> e = Worker_finish"
  shows "pending_play (exec e s) = pending_play s \<and> played (exec e s) = played s
    \<and> voice_cache (exec e s) = voice_cache s"
  using assms
  by (auto simp: worker_pop_def worker_open_def worker_generate_def worker_finish_def
      write_file_def Let_def split: list.splits worker_pc.splits outcome.splits)

subsection \<open>The example states\<close>

lemmas eval_defs = play_voice_def cache_and_play_def generate_async_def enqueue_def
  update_def handle_ready_def set_volume_voice_def set_volume_def worker_pop_def
  worker_generate_def worker_finish_def load_sound_def read_file_def write_file_def
  init_def Let_def voice_path_eq generate_path_voice_path

lemma three_cached_cache:
  "voice_cache three_cached =
     [''cat'' \<mapsto> \<lparr>audio = ''cat'', volume = 0.8\<rparr>,
      ''dog'' \<mapsto> \<lparr>audio = ''dog'', volume = 0.8\<rparr>,
      ''owl'' \<mapsto> \<lparr>audio = ''owl'', volume = 0.8\<rparr>]"
  by (simp add: three_cached_def three_files_def normalize_words eval_defs)

lemma cat_requested_eq:
  "cat_requested = (init True id Map.empty)
     \<lparr>generation_queue := [''cat''], generating_words := {''cat''}, pending_play := Some ''cat''\<rparr>"
  by (simp add: cat_requested_def normalize_Cat eval_defs)

lemma reach_cat: "reachable cat_requested"
  unfolding cat_requested_def by (intro reachable_exec reachable_init)



lemma both_requested_eq:
  "both_requested ok = (init ok id Map.empty)
     \<lparr>generation_queue := [''apple'', ''bee''], generating_words := {''bee'', ''apple''},
      pending_play := Some ''bee''\<rparr>"
  by (simp add: both_requested_def normalize_Apple_Bee eval_defs)

lemma apple_ready_eq:
  "apple_ready ok = (init ok id Map.empty)
     \<lparr>disk := [''assets/voice/apple.mp3'' \<mapsto> Speech ''apple''],
      generation_queue := [''bee''], generating_words := {''bee''},
      ready_queue := [(''apple'', ''assets/voice/apple.mp3'')],
      pending_play := Some ''bee''\<rparr>"
  unfolding apple_ready_def both_requested_eq synthesise_def
  by (intro state.equality) (auto simp: eval_defs)

lemma apple_drained_eq:
  "exec Poll (apple_ready ok) = (init ok id Map.empty)
     \<lparr>disk := [''assets/voice/apple.mp3'' \<mapsto> Speech ''apple''],
      voice_cache := (if ok then [''apple'' \<mapsto> \<lparr>audio = ''apple'', volume = 1\<rparr>] else Map.empty),
      generation_queue := [''bee''], generating_words := {''bee''},
      pending_play := Some ''bee''\<rparr>"
  unfolding apple_ready_eq
  by (intro state.equality) (auto simp: eval_defs)

lemma bee_ready_eq:
  "bee_ready ok = (init ok id Map.empty)
     \<lparr>disk := [''assets/voice/apple.mp3'' \<mapsto> Speech ''apple'',
               ''assets/voice/bee.mp3'' \<mapsto> Speech ''bee''],
      voice_cache := (if ok then [''apple'' \<mapsto> \<lparr>audio = ''apple'', volume = 1\<rparr>] else Map.empty),
      ready_queue := [(''bee'', ''assets/voice/bee.mp3'')],
      pending_play := Some ''bee''\<rparr>"
  unfolding bee_ready_def apple_drained_eq synthesise_def
  by (intro state.equality) (auto simp: eval_defs)

lemma reach_apple_ready: "reachable (apple_ready ok)"
  unfolding apple_ready_def both_requested_def by (intro reachable_run reachable_init)

lemma reach_bee_ready: "reachable (bee_ready ok)"
  unfolding bee_ready_def by (intro reachable_run reachable_exec reach_apple_ready)

lemma cat_rewritten_eq:
  "cat_rewritten = (init True id Map.empty)
     \<lparr>disk := [''assets/voice/cat.mp3'' \<mapsto> Corrupt],
      ready_queue := [(''cat'', ''assets/voice/cat.mp3'')],
      generating_words := {''cat''},
      pending_play := Some ''cat'',
      worker := Generating ''cat''\<rparr>"
  unfolding cat_rewritten_def
  by (intro state.equality)
     (auto simp: normalize_words eval_defs request_begin_def request_enqueue_def worker_open_def)

lemma reach_cat_rewritten: "reachable cat_rewritten"
  unfolding cat_rewritten_def by (intro reachable_run reachable_init)

lemma cat_aliased_eq:
  "cat_aliased = (init True alias_names Map.empty)
     \<lparr>disk := [''assets/voice/cat.mp3'' \<mapsto> Speech ''./cat''],
      ready_queue := [(''cat'', ''assets/voice/cat.mp3'')],
      generating_words := {''./cat''},
      pending_play := Some ''./cat'',
      worker := Saved ''./cat'' ''assets/voice/./cat.mp3''\<rparr>"
  unfolding cat_aliased_def
  by (intro state.equality)
     (auto simp: normalize_words normalize_dot_cat eval_defs alias_names_def)

lemma reach_cat_aliased: "reachable cat_aliased"
  unfolding cat_aliased_def by (intro reachable_run reachable_init)

subsection \<open>Latest request wins\<close>

text \<open>
  C1, as amended. When two requests with keys \<open>ka\<close> then \<open>kb\<close> miss the cache and the
  disk, the pending word is \<open>ka\<close> after the first and \<open>kb\<close> after the second, both words
  are generating and nothing has been cached or played; the last step of an interrupted
  request sets its word pending, and no step of the worker changes the pending word or
  plays a sound. In a reachable state with \<open>kb\<close> pending: an \<open>update\<close> that drains a
  record of \<open>ka\<close> whose file loads, with no record of \<open>kb\<close> in the queue, stores the
  sound of \<open>ka\<close>, plays nothing and leaves \<open>kb\<close> pending; an \<open>update\<close> that drains a
  record of \<open>kb\<close> whose file loads stores that sound, plays it and clears the pending
  word. The same for one iteration of the loop of \<open>update\<close>; an iteration whose file
  does not load removes the record and changes nothing else.
\<close>

theorem latest_request_wins:
  "(normalize a = ka \<and> normalize b = kb \<and> ka \<noteq> [] \<and> kb \<noteq> []
      \<and> voice_cache s ka = None \<and> load_sound s (voice_path ka) = None
      \<and> voice_cache s kb = None \<and> load_sound s (voice_path kb) = None
     \<longrightarrow> pending_play (play_voice a s) = Some ka
         \<and> pending_play (play_voice b (play_voice a s)) = Some kb
         \<and> ka \<in> generating_words (play_voice b (play_voice a s))
         \<and> kb \<in> generating_words (play_voice b (play_voice a s))
         \<and> played (play_voice b (play_voice a s)) = played s
         \<and> voice_cache (play_voice b (play_voice a s)) = voice_cache s)
   \<and> (consumer t = Enqueuing kb \<longrightarrow> pending_play (exec Request_enqueue t) = Some kb)
   \<and> (e = Worker_pop \<or> e = Worker_open \<or> e = Worker_generate out \<or> e = Worker_finish
        \<longrightarrow> pending_play (exec e t) = pending_play t \<and> played (exec e t) = played t)
   \<and> (reachable t \<and> pending_play t = Some kb \<and> (ka, pa) \<in> set (ready_queue t)
        \<and> kb \<notin> fst ` set (ready_queue t) \<and> load_sound t pa = Some sound_a
        \<longrightarrow> voice_cache (update t) ka = Some sound_a
            \<and> played (update t) = played t
            \<and> pending_play (update t) = Some kb)
   \<and> (reachable t \<and> pending_play t = Some kb \<and> (kb, pb) \<in> set (ready_queue t)
        \<and> load_sound t pb = Some sound_b
        \<longrightarrow> voice_cache (update t) kb = Some sound_b
            \<and> played (update t) = played t @ [sound_b]
            \<and> pending_play (update t) = None
            \<and> ((ka, pa) \<in> set (ready_queue t) \<and> load_sound t pa = Some sound_a
                 \<longrightarrow> voice_cache (update t) ka = Some sound_a))
   \<and> (consumer t = Polling \<and> pending_play t = Some kb \<and> ready_queue t = (ka, pa) # rest
        \<and> ka \<noteq> kb \<and> load_sound t pa = Some sound_a
        \<longrightarrow> exec Poll_step t
             = t\<lparr>ready_queue := rest, voice_cache := (voice_cache t)(ka \<mapsto> sound_a)\<rparr>)
   \<and> (consumer t = Polling \<and> pending_play t = Some kb \<and> ready_queue t = (kb, pb) # rest
        \<and> load_sound t pb = Some sound_b
        \<longrightarrow> exec Poll_step t
             = t\<lparr>ready_queue := rest, voice_cache := (voice_cache t)(kb \<mapsto> sound_b),
                 played := played t @ [sound_b], pending_play := None\<rparr>)
   \<and> (consumer t = Polling \<and> ready_queue t = (w, p) # rest \<and> load_sound t p = None
        \<longrightarrow> exec Poll_step t = t\<lparr>ready_queue := rest\<rparr>)"
proof -
  have requests: "pending_play (play_voice a s) = Some ka
      \<and> pending_play (play_voice b (play_voice a s)) = Some kb
      \<and> ka \<in> generating_words (play_voice b (play_voice a s))
      \<and> kb \<in> generating_words (play_voice b (play_voice a s))
      \<and> played (play_voice b (play_voice a s)) = played s
      \<and> voice_cache (play_voice b (play_voice a s)) = voice_cache s"
    if ka: "normalize a = ka" "ka \<noteq> []" and kb: "normalize b = kb" "kb \<noteq> []"
      and ma: "voice_cache s ka = None" "load_sound s (voice_path ka) = None"
      and mb: "voice_cache s kb = None" "load_sound s (voice_path kb) = None"
  proof -
    have s1: "play_voice a s = generate_async ka s" using ka ma by (rule play_voice_miss)
    have l1: "load_sound (generate_async ka s) = load_sound s"
      by (rule load_sound_cong) (simp_all add: generate_async_frame)
    have s2: "play_voice b (generate_async ka s) = generate_async kb (generate_async ka s)"
      using kb mb by (intro play_voice_miss) (simp_all add: l1 generate_async_frame)
    show ?thesis unfolding s1 s2 by (simp add: generate_async_frame)
  qed
  have enqueue: "pending_play (exec Request_enqueue t) = Some kb" if "consumer t = Enqueuing kb"
    using that by (simp add: request_enqueue_def generate_async_frame)
  have first: "voice_cache (update t) ka = Some sound_a \<and> played (update t) = played t
      \<and> pending_play (update t) = Some kb"
    if r: "reachable t" and pp: "pending_play t = Some kb"
      and a: "(ka, pa) \<in> set (ready_queue t)" and nb: "kb \<notin> fst ` set (ready_queue t)"
      and la: "load_sound t pa = Some sound_a"
  proof -
    have "\<forall>q. (ka, q) \<in> set (ready_queue t) \<longrightarrow> load_sound t q = Some sound_a"
      using same_path [OF r a] la by auto
    moreover have "ka \<in> fst ` set (ready_queue t)" using a by force
    ultimately have "voice_cache (update t) ka = Some sound_a"
      unfolding update_def by (rule drain_loaded)
    moreover have "\<forall>w \<in> fst ` set (ready_queue t). pending_play t \<noteq> Some w"
      using pp nb by auto
    then have "played (update t) = played t \<and> pending_play (update t) = pending_play t"
      unfolding update_def by (rule drain_no_target)
    ultimately show ?thesis using pp by simp
  qed
  have later: "voice_cache (update t) kb = Some sound_b
      \<and> played (update t) = played t @ [sound_b]
      \<and> pending_play (update t) = None
      \<and> ((ka, pa) \<in> set (ready_queue t) \<and> load_sound t pa = Some sound_a
           \<longrightarrow> voice_cache (update t) ka = Some sound_a)"
    if r: "reachable t" and pp: "pending_play t = Some kb"
      and b: "(kb, pb) \<in> set (ready_queue t)" and lb: "load_sound t pb = Some sound_b"
  proof -
    have all_b: "\<forall>q. (kb, q) \<in> set (ready_queue t) \<longrightarrow> load_sound t q = Some sound_b"
      using same_path [OF r b] lb by auto
    have bin: "kb \<in> fst ` set (ready_queue t)" using b by force
    have "voice_cache (update t) kb = Some sound_b"
      unfolding update_def using all_b bin by (rule drain_loaded)
    moreover have "played (update t) = played t @ [sound_b] \<and> pending_play (update t) = None"
      unfolding update_def using pp all_b bin by (rule drain_target)
    moreover have "voice_cache (update t) ka = Some sound_a"
      if a: "(ka, pa) \<in> set (ready_queue t)" and la: "load_sound t pa = Some sound_a"
    proof -
      have "\<forall>q. (ka, q) \<in> set (ready_queue t) \<longrightarrow> load_sound t q = Some sound_a"
        using same_path [OF r a] la by auto
      moreover have "ka \<in> fst ` set (ready_queue t)" using a by force
      ultimately show ?thesis unfolding update_def by (rule drain_loaded)
    qed
    ultimately show ?thesis by simp
  qed
  have step_other: "exec Poll_step t
      = t\<lparr>ready_queue := rest, voice_cache := (voice_cache t)(ka \<mapsto> sound_a)\<rparr>"
    if "consumer t = Polling" "pending_play t = Some kb" "ready_queue t = (ka, pa) # rest"
      "ka \<noteq> kb" "load_sound t pa = Some sound_a"
  proof -
    have "load_sound (t\<lparr>ready_queue := rest\<rparr>) pa = Some sound_a"
      using that(5) by (simp add: load_sound_upd)
    then show ?thesis using that by (simp add: poll_step_def handle_ready_loaded)
  qed
  have step_target: "exec Poll_step t
      = t\<lparr>ready_queue := rest, voice_cache := (voice_cache t)(kb \<mapsto> sound_b),
          played := played t @ [sound_b], pending_play := None\<rparr>"
    if "consumer t = Polling" "pending_play t = Some kb" "ready_queue t = (kb, pb) # rest"
      "load_sound t pb = Some sound_b"
  proof -
    have "load_sound (t\<lparr>ready_queue := rest\<rparr>) pb = Some sound_b"
      using that(4) by (simp add: load_sound_upd)
    then show ?thesis using that by (simp add: poll_step_def handle_ready_loaded)
  qed
  have step_failed: "exec Poll_step t = t\<lparr>ready_queue := rest\<rparr>"
    if "consumer t = Polling" "ready_queue t = (w, p) # rest" "load_sound t p = None"
  proof -
    have "load_sound (t\<lparr>ready_queue := rest\<rparr>) p = None"
      using that(3) by (simp add: load_sound_upd)
    then show ?thesis using that by (simp add: poll_step_def handle_ready_failed)
  qed
  have worker: "pending_play (exec e t) = pending_play t \<and> played (exec e t) = played t"
    if "e = Worker_pop \<or> e = Worker_open \<or> e = Worker_generate out \<or> e = Worker_finish"
    using worker_keeps_target [OF that, of t] by simp
  show ?thesis
  proof (intro conjI)
    show "normalize a = ka \<and> normalize b = kb \<and> ka \<noteq> [] \<and> kb \<noteq> []
        \<and> voice_cache s ka = None \<and> load_sound s (voice_path ka) = None
        \<and> voice_cache s kb = None \<and> load_sound s (voice_path kb) = None
       \<longrightarrow> pending_play (play_voice a s) = Some ka
           \<and> pending_play (play_voice b (play_voice a s)) = Some kb
           \<and> ka \<in> generating_words (play_voice b (play_voice a s))
           \<and> kb \<in> generating_words (play_voice b (play_voice a s))
           \<and> played (play_voice b (play_voice a s)) = played s
           \<and> voice_cache (play_voice b (play_voice a s)) = voice_cache s"
      using requests by blast
    show "consumer t = Enqueuing kb \<longrightarrow> pending_play (exec Request_enqueue t) = Some kb"
      using enqueue by blast
    show "e = Worker_pop \<or> e = Worker_open \<or> e = Worker_generate out \<or> e = Worker_finish
        \<longrightarrow> pending_play (exec e t) = pending_play t \<and> played (exec e t) = played t"
      using worker by blast
    show "reachable t \<and> pending_play t = Some kb \<and> (ka, pa) \<in> set (ready_queue t)
        \<and> kb \<notin> fst ` set (ready_queue t) \<and> load_sound t pa = Some sound_a
        \<longrightarrow> voice_cache (update t) ka = Some sound_a
            \<and> played (update t) = played t
            \<and> pending_play (update t) = Some kb"
      using first by blast
    show "reachable t \<and> pending_play t = Some kb \<and> (kb, pb) \<in> set (ready_queue t)
        \<and> load_sound t pb = Some sound_b
        \<longrightarrow> voice_cache (update t) kb = Some sound_b
            \<and> played (update t) = played t @ [sound_b]
            \<and> pending_play (update t) = None
            \<and> ((ka, pa) \<in> set (ready_queue t) \<and> load_sound t pa = Some sound_a
                 \<longrightarrow> voice_cache (update t) ka = Some sound_a)"
      using later by blast
    show "consumer t = Polling \<and> pending_play t = Some kb \<and> ready_queue t = (ka, pa) # rest
        \<and> ka \<noteq> kb \<and> load_sound t pa = Some sound_a
        \<longrightarrow> exec Poll_step t
             = t\<lparr>ready_queue := rest, voice_cache := (voice_cache t)(ka \<mapsto> sound_a)\<rparr>"
      using step_other by blast
    show "consumer t = Polling \<and> pending_play t = Some kb \<and> ready_queue t = (kb, pb) # rest
        \<and> load_sound t pb = Some sound_b
        \<longrightarrow> exec Poll_step t
             = t\<lparr>ready_queue := rest, voice_cache := (voice_cache t)(kb \<mapsto> sound_b),
                 played := played t @ [sound_b], pending_play := None\<rparr>"
      using step_target by blast
    show "consumer t = Polling \<and> ready_queue t = (w, p) # rest \<and> load_sound t p = None
        \<longrightarrow> exec Poll_step t = t\<lparr>ready_queue := rest\<rparr>"
      using step_failed by blast
  qed
qed

theorem latest_request_wins_witness:
  "pending_play (play_voice '' Bee '' (play_voice ''Apple'' (init True id Map.empty))) = Some ''bee''
   \<and> reachable (apple_ready True)
   \<and> voice_cache (update (apple_ready True)) ''apple'' = Some \<lparr>audio = ''apple'', volume = 1\<rparr>
   \<and> played (update (apple_ready True)) = []
   \<and> pending_play (update (apple_ready True)) = Some ''bee''
   \<and> reachable (bee_ready True)
   \<and> voice_cache (update (bee_ready True)) ''bee'' = Some \<lparr>audio = ''bee'', volume = 1\<rparr>
   \<and> played (update (bee_ready True)) = [\<lparr>audio = ''bee'', volume = 1\<rparr>]
   \<and> pending_play (update (bee_ready True)) = None"
proof -
  let ?s = "init True id Map.empty"
  have miss: "voice_cache ?s ''apple'' = None" "load_sound ?s (voice_path ''apple'') = None"
    "voice_cache ?s ''bee'' = None" "load_sound ?s (voice_path ''bee'') = None"
    by (simp_all add: init_def load_sound_def read_file_def)
  have a: "pending_play (apple_ready True) = Some ''bee''"
    "(''apple'', ''assets/voice/apple.mp3'') \<in> set (ready_queue (apple_ready True))"
    "''bee'' \<notin> fst ` set (ready_queue (apple_ready True))"
    "load_sound (apple_ready True) ''assets/voice/apple.mp3''
       = Some \<lparr>audio = ''apple'', volume = 1\<rparr>"
    "played (apple_ready True) = []"
    by (simp_all add: apple_ready_eq init_def load_sound_def read_file_def)
  have b: "pending_play (bee_ready True) = Some ''bee''"
    "(''bee'', ''assets/voice/bee.mp3'') \<in> set (ready_queue (bee_ready True))"
    "load_sound (bee_ready True) ''assets/voice/bee.mp3''
       = Some \<lparr>audio = ''bee'', volume = 1\<rparr>"
    "played (bee_ready True) = []"
    by (simp_all add: bee_ready_eq init_def load_sound_def read_file_def)
  show ?thesis
    using latest_request_wins [of "''Apple''" "''apple''" "'' Bee ''" "''bee''" ?s
        "apple_ready True" Worker_pop Synth_ok "''assets/voice/apple.mp3''"
        "\<lparr>audio = ''apple'', volume = 1\<rparr>"]
      latest_request_wins [of "''Apple''" "''apple''" "'' Bee ''" "''bee''" ?s
        "bee_ready True" Worker_pop Synth_ok "''assets/voice/apple.mp3''"
        "\<lparr>audio = ''apple'', volume = 1\<rparr>" "''assets/voice/bee.mp3''"
        "\<lparr>audio = ''bee'', volume = 1\<rparr>"]
      normalize_Apple_Bee miss a b reach_apple_ready [of True] reach_bee_ready [of True]
    by simp
qed

text \<open>
  C1, as stated, fails when the mixer did not initialise: both requests miss, both
  words are synthesised and both records are drained, but no file loads, so that the
  first word is not in the cache, the second word is never played and stays pending.
\<close>

theorem latest_request_not_played_without_mixer:
  "pending_play (both_requested False) = Some ''bee''
   \<and> ready_queue (apple_ready False) = [(''apple'', ''assets/voice/apple.mp3'')]
   \<and> read_file (apple_ready False) ''assets/voice/apple.mp3'' = Some (Speech ''apple'')
   \<and> exec Poll (apple_ready False) = update (apple_ready False)
   \<and> ready_queue (update (apple_ready False)) = []
   \<and> voice_cache (update (apple_ready False)) ''apple'' = None
   \<and> ready_queue (bee_ready False) = [(''bee'', ''assets/voice/bee.mp3'')]
   \<and> read_file (bee_ready False) ''assets/voice/bee.mp3'' = Some (Speech ''bee'')
   \<and> ready_queue (update (bee_ready False)) = []
   \<and> played (update (bee_ready False)) = []
   \<and> pending_play (update (bee_ready False)) = Some ''bee''"
proof -
  have c: "consumer (apple_ready False) = Ready" by (simp add: apple_ready_eq init_def)
  have p: "exec Poll (apple_ready False) = update (apple_ready False)" using c by simp
  have "voice_cache (exec Poll (apple_ready False)) ''apple'' = None"
    unfolding apple_drained_eq by (simp add: init_def)
  then have a: "voice_cache (update (apple_ready False)) ''apple'' = None"
    unfolding p .
  have b: "played (update (bee_ready False)) = []"
    "pending_play (update (bee_ready False)) = Some ''bee''"
    by (simp_all add: bee_ready_eq init_def update_def handle_ready_def load_sound_def)
  have r: "pending_play (both_requested False) = Some ''bee''"
    "ready_queue (apple_ready False) = [(''apple'', ''assets/voice/apple.mp3'')]"
    "read_file (apple_ready False) ''assets/voice/apple.mp3'' = Some (Speech ''apple'')"
    "ready_queue (bee_ready False) = [(''bee'', ''assets/voice/bee.mp3'')]"
    "read_file (bee_ready False) ''assets/voice/bee.mp3'' = Some (Speech ''bee'')"
    by (simp_all add: both_requested_eq apple_ready_eq bee_ready_eq init_def read_file_def)
  show ?thesis using p a b r by (simp add: update_frame)
qed

subsection \<open>De-duplication\<close>

text \<open>
  C2. Two requests for a word in a row append its key to the generation queue at most
  once, the second one never, and the queue holds the key at most once afterwards.
\<close>

theorem request_twice_enqueues_once:
  assumes "reachable s"
  shows "let k = normalize w; s1 = play_voice w s; s2 = play_voice w s1
         in (generation_queue s1 = generation_queue s \<or> generation_queue s1 = generation_queue s @ [k])
            \<and> generation_queue s2 = generation_queue s1
            \<and> count_list (generation_queue s2) k \<le> 1
            \<and> distinct (generation_queue s2)"
proof -
  have c2: "consistent (play_voice w (play_voice w s))"
    by (intro consistent_play_voice reachable_consistent assms)
  have d: "distinct (generation_queue (play_voice w (play_voice w s)))"
    using c2 by (simp add: consistent_def)
  have c: "count_list xs x \<le> 1" if "distinct xs" for xs :: "string list" and x
    using that by (induction xs) auto
  show ?thesis
    using play_voice_queue [of w s] play_voice_twice_queue [of w s] d c [OF d]
    by (auto simp: Let_def)
qed

theorem request_twice_enqueues_once_witness:
  "reachable (init True id Map.empty)
   \<and> generation_queue (play_voice ''Cat'' (play_voice ''Cat'' (init True id Map.empty))) = [''cat'']"
proof -
  have r: "reachable (init True id Map.empty)" by (rule reachable_init)
  have q: "generation_queue (play_voice ''Cat'' (init True id Map.empty)) = [''cat'']"
    using cat_requested_eq by (simp add: cat_requested_def init_def)
  show ?thesis
    using request_twice_enqueues_once [OF r, of "''Cat''"] r q by (simp add: Let_def)
qed

subsection \<open>The generating set and the queue stay consistent\<close>

text \<open>
  C3. In every reachable state each queued word is in the generating set, which holds
  the queued words and the word of the worker and nothing else; a step adds a word to
  the set exactly when it appends the word to the queue, and only the worker's last
  critical section for a word removes it.
\<close>

theorem pending_queue_consistent:
  assumes "reachable s"
  shows "set (generation_queue s) \<subseteq> generating_words s
    \<and> generating_words s = set (generation_queue s) \<union> worker_words (worker s)
    \<and> distinct (generation_queue s)
    \<and> worker_words (worker s) \<inter> set (generation_queue s) = {}
    \<and> ((k \<notin> generating_words s \<and> k \<in> generating_words (exec e s))
         = (generation_queue (exec e s) = generation_queue s @ [k]))
    \<and> (k \<in> generating_words s \<and> k \<notin> generating_words (exec e s)
         \<longrightarrow> e = Worker_finish \<and> ((\<exists>p. worker s = Saved k p) \<or> worker s = Failed k))"
proof -
  have c: "consistent s" using assms by (rule reachable_consistent)
  have 1: "generating_words s = set (generation_queue s) \<union> worker_words (worker s)"
    and 2: "distinct (generation_queue s)"
    and 3: "worker_words (worker s) \<inter> set (generation_queue s) = {}"
    using c by (simp_all add: consistent_def)
  have 0: "set (generation_queue s) \<subseteq> generating_words s" using 1 by blast
  show ?thesis using 0 1 2 3 exec_enters [of k s e] exec_leaves [of k s e] by blast
qed

theorem pending_queue_consistent_witness:
  "reachable cat_requested
   \<and> set (generation_queue cat_requested) \<subseteq> generating_words cat_requested
   \<and> generating_words cat_requested = {''cat''}
   \<and> generation_queue cat_requested = generation_queue (init True id Map.empty) @ [''cat'']"
  using pending_queue_consistent [OF reach_cat, of "''cat''" Worker_pop] reach_cat
  by (simp add: cat_requested_eq init_def)

subsection \<open>The worker: failure\<close>

text \<open>
  C4, as amended. When the synthesis of the worker's word fails, with or without an
  unfinished file left behind, the worker removes the word from the generating set,
  leaves both queues, the cache, the pending word and the sounds played as they were
  and goes back to its loop; the set is empty afterwards if no other word was in it.
  If no synthesis has succeeded since the start, the word is not queued after the
  failure, and the next request for it appends it to the queue, marks it as generating
  and sets it pending.
\<close>

theorem worker_failure_path:
  assumes "worker s = Generating k"
  shows "let s1 = worker_generate (Synth_fail partial) s; s2 = worker_finish s1
         in worker s1 = Failed k
            \<and> generating_words s2 = generating_words s - {k}
            \<and> ready_queue s2 = ready_queue s
            \<and> generation_queue s2 = generation_queue s
            \<and> worker s2 = Idle
            \<and> voice_cache s2 = voice_cache s
            \<and> pending_play s2 = pending_play s
            \<and> played s2 = played s
            \<and> (generating_words s \<subseteq> {k} \<longrightarrow> generating_words s2 = {})
            \<and> (s = run es (init ok names files) \<and> Worker_generate Synth_ok \<notin> set es
                \<and> normalize word = k
                \<longrightarrow> k \<notin> set (generation_queue s2)
                    \<and> generation_queue (play_voice word s2) = generation_queue s2 @ [k]
                    \<and> k \<in> generating_words (play_voice word s2)
                    \<and> pending_play (play_voice word s2) = Some k)"
proof -
  define s2 where "s2 = worker_finish (worker_generate (Synth_fail partial) s)"
  have local: "worker (worker_generate (Synth_fail partial) s) = Failed k"
    "generating_words s2 = generating_words s - {k}" "ready_queue s2 = ready_queue s"
    "generation_queue s2 = generation_queue s" "worker s2 = Idle"
    "voice_cache s2 = voice_cache s" "pending_play s2 = pending_play s" "played s2 = played s"
    using assms by (simp_all add: s2_def worker_generate_def worker_finish_def write_file_def Let_def)
  have only: "generating_words s \<subseteq> {k} \<longrightarrow> generating_words s2 = {}"
    using local(2) by auto
  have again: "s = run es (init ok names files) \<and> Worker_generate Synth_ok \<notin> set es
      \<and> normalize word = k
      \<longrightarrow> k \<notin> set (generation_queue s2)
          \<and> generation_queue (play_voice word s2) = generation_queue s2 @ [k]
          \<and> k \<in> generating_words (play_voice word s2)
          \<and> pending_play (play_voice word s2) = Some k"
  proof (intro impI, elim conjE)
    assume run: "s = run es (init ok names files)" and fails: "Worker_generate Synth_ok \<notin> set es"
      and key: "normalize word = k"
    have cs: "consistent s" unfolding run by (rule consistent_run) (rule consistent_init)
    have ss: "starved s" unfolding run using starved_init fails by (rule starved_run)
    have kin: "k \<in> generating_words s" and knq: "k \<notin> set (generation_queue s)"
      and kne: "k \<noteq> []"
      using cs assms by (auto simp: consistent_def)
    let ?s1 = "worker_generate (Synth_fail partial) s"
    have "starved ?s1" by (intro starved_worker_fail ss)
    moreover have "k \<in> generating_words ?s1"
      using kin assms by (simp add: worker_generate_def write_file_def Let_def)
    ultimately have miss1: "voice_cache ?s1 k = None \<and> load_sound ?s1 (voice_path k) = None"
      unfolding starved_def by auto
    have "voice_cache s2 = voice_cache ?s1"
      unfolding s2_def by (simp add: worker_finish_def split: worker_pc.splits)
    moreover have "load_sound s2 = load_sound ?s1"
      unfolding s2_def
      by (rule load_sound_cong) (simp_all add: worker_finish_def split: worker_pc.splits)
    ultimately have "voice_cache s2 k = None \<and> load_sound s2 (voice_path k) = None"
      using miss1 by simp
    then have "play_voice word s2 = generate_async k s2"
      using kne key by (auto simp: play_voice_def Let_def)
    then show "k \<notin> set (generation_queue s2)
      \<and> generation_queue (play_voice word s2) = generation_queue s2 @ [k]
      \<and> k \<in> generating_words (play_voice word s2)
      \<and> pending_play (play_voice word s2) = Some k"
      using knq local by (simp add: generate_async_frame)
  qed
  show ?thesis
    unfolding Let_def s2_def [symmetric]
    by (intro conjI) (rule local only again)+
qed

theorem worker_failure_path_witness:
  "worker ant_generating = Generating ''ant''
   \<and> generating_words (worker_finish (worker_generate (Synth_fail True) ant_generating)) = {}
   \<and> ready_queue (worker_finish (worker_generate (Synth_fail True) ant_generating)) = []
   \<and> generation_queue
        (play_voice ''ant'' (worker_finish (worker_generate (Synth_fail True) ant_generating)))
       = [''ant'']"
proof -
  have w: "worker ant_generating = Generating ''ant''"
    and g: "generating_words ant_generating = {''ant''}"
    and r: "ready_queue ant_generating = []"
    and q: "generation_queue ant_generating = []"
    by (simp_all add: ant_generating_def normalize_ant_bee eval_defs)
  have e: "ant_generating = run [Request ''ant'', Worker_pop] (init True id Map.empty)
      \<and> Worker_generate Synth_ok \<notin> set [Request ''ant'', Worker_pop]
      \<and> normalize ''ant'' = ''ant''"
    by (simp add: ant_generating_def normalize_ant_bee)
  show ?thesis
    using worker_failure_path [OF w, of True "[Request ''ant'', Worker_pop]" True id Map.empty
        "''ant''"]
      e w g r q
    unfolding Let_def by simp
qed

text \<open>
  C4, as stated, fails when another word is waiting: after two requests and the failed
  synthesis of the first word the generating set holds the second word.
\<close>

theorem failure_leaves_other_word_pending:
  "worker (run [Request ''ant'', Request ''bee'', Worker_pop] (init True id Map.empty))
     = Generating ''ant''
   \<and> generating_words two_pending_failed = {''bee''}
   \<and> generating_words two_pending_failed \<noteq> {}"
  by (auto simp: two_pending_failed_def normalize_ant_bee eval_defs)

subsection \<open>The worker: success\<close>

text \<open>
  C5. For a word popped from the generation queue whose synthesis succeeds, the worker
  writes the speech to the file of the path that \<open>play_voice\<close> looks under, where it can
  be read back, and its critical section then appends the one record of the word and
  that path to the ready queue and removes the word from the generating set.
\<close>

theorem worker_success_path:
  assumes "worker s = Idle" and "generation_queue s = k # rest" and "k \<noteq> []"
  shows "let s1 = worker_pop s; s2 = worker_generate Synth_ok s1; s3 = worker_finish s2
         in worker s1 = Generating k \<and> generation_queue s1 = rest
            \<and> generate_path k = voice_path k
            \<and> generate_path k = path_join voice_dir (k @ ''.mp3'')
            \<and> disk s2 = (disk s)(file_of s (voice_path k) \<mapsto> Speech k)
            \<and> read_file s2 (voice_path k) = Some (Speech k)
            \<and> worker s2 = Saved k (voice_path k)
            \<and> ready_queue s2 = ready_queue s \<and> generating_words s2 = generating_words s
            \<and> ready_queue s3 = ready_queue s @ [(k, voice_path k)]
            \<and> generating_words s3 = generating_words s - {k}
            \<and> worker s3 = Idle
            \<and> disk s3 = disk s2 \<and> generation_queue s3 = rest"
  using assms
  by (simp add: Let_def worker_pop_def worker_generate_def worker_finish_def
      write_file_def read_file_def generate_path_voice_path voice_path_def)

theorem worker_success_path_witness:
  "worker cat_requested = Idle \<and> generation_queue cat_requested = [''cat'']
   \<and> disk (worker_generate Synth_ok (worker_pop cat_requested)) ''assets/voice/cat.mp3''
       = Some (Speech ''cat'')
   \<and> ready_queue (worker_finish (worker_generate Synth_ok (worker_pop cat_requested)))
       = [(''cat'', ''assets/voice/cat.mp3'')]
   \<and> generating_words (worker_finish (worker_generate Synth_ok (worker_pop cat_requested))) = {}"
proof -
  have w: "worker cat_requested = Idle" and q: "generation_queue cat_requested = ''cat'' # []"
    and r: "ready_queue cat_requested = []" and g: "generating_words cat_requested = {''cat''}"
    and f: "file_of cat_requested = id"
    by (simp_all add: cat_requested_eq init_def)
  have n: "''cat'' \<noteq> []" by simp
  show ?thesis
    using worker_success_path [OF w q n] w q r g f by (simp add: Let_def voice_path_eq)
qed

subsection \<open>Normalisation of the word\<close>

text \<open>
  C6. \<open>request("Cat")\<close> and \<open>request(" cat ")\<close> both have the key \<open>cat\<close>, whose path is
  \<open>assets/voice/cat.mp3\<close> for the coordinator and for the worker. Either request reads
  the cache entry of \<open>cat\<close> and, when there is one, sets its volume and plays it;
  otherwise it loads the file of that path, stores the sound under \<open>cat\<close> and plays it;
  and when that load raises, it sets \<open>cat\<close> pending, marks \<open>cat\<close> as generating and
  appends \<open>cat\<close> to the queue unless it was generating already. The load looks at the
  file of that one path, and the worker saves the speech of \<open>cat\<close> to it.
\<close>

theorem request_Cat_same_key:
  "normalize ''Cat'' = ''cat'' \<and> normalize '' cat '' = ''cat''
   \<and> voice_path ''cat'' = ''assets/voice/cat.mp3''
   \<and> generate_path ''cat'' = ''assets/voice/cat.mp3''
   \<and> (\<forall>w \<in> {''Cat'', '' cat ''}.
        (voice_cache s ''cat'' = Some sound \<longrightarrow>
           play_voice w s
             = s\<lparr>voice_cache := (voice_cache s)(''cat'' \<mapsto> sound\<lparr>volume := volume_voice s\<rparr>),
                 played := played s @ [sound\<lparr>volume := volume_voice s\<rparr>]\<rparr>)
        \<and> (voice_cache s ''cat'' = None
             \<and> load_sound s ''assets/voice/cat.mp3'' = Some sound \<longrightarrow>
           play_voice w s
             = s\<lparr>voice_cache := (voice_cache s)(''cat'' \<mapsto> sound\<lparr>volume := volume_voice s\<rparr>),
                 played := played s @ [sound\<lparr>volume := volume_voice s\<rparr>]\<rparr>)
        \<and> (voice_cache s ''cat'' = None \<and> load_sound s ''assets/voice/cat.mp3'' = None \<longrightarrow>
           play_voice w s
             = s\<lparr>pending_play := Some ''cat'',
                 generation_queue :=
                   (if ''cat'' \<in> generating_words s then generation_queue s
                    else generation_queue s @ [''cat'']),
                 generating_words := insert ''cat'' (generating_words s)\<rparr>))
   \<and> load_sound s ''assets/voice/cat.mp3''
       = (if mixer_ok s
          then (case disk s (file_of s ''assets/voice/cat.mp3'') of
                  Some (Speech spoken) \<Rightarrow> Some \<lparr>audio = spoken, volume = 1\<rparr>
                | _ \<Rightarrow> None)
          else None)
   \<and> (worker s = Generating ''cat'' \<longrightarrow>
         disk (worker_generate Synth_ok s)
           = (disk s)(file_of s ''assets/voice/cat.mp3'' \<mapsto> Speech ''cat'')
         \<and> worker (worker_generate Synth_ok s) = Saved ''cat'' ''assets/voice/cat.mp3'')"
proof -
  have key: "normalize w = ''cat''" if "w \<in> {''Cat'', '' cat ''}" for w
    using that normalize_Cat normalize_cat_spaces by auto
  have ne: "''cat'' \<noteq> []" by simp
  have memory: "play_voice w s
      = s\<lparr>voice_cache := (voice_cache s)(''cat'' \<mapsto> sound\<lparr>volume := volume_voice s\<rparr>),
          played := played s @ [sound\<lparr>volume := volume_voice s\<rparr>]\<rparr>"
    if "w \<in> {''Cat'', '' cat ''}" "voice_cache s ''cat'' = Some sound" for w
    unfolding play_voice_memory_hit [OF key [OF that(1)] ne that(2)]
    by (simp add: cache_and_play_def set_volume_def Let_def)
  have disk: "play_voice w s
      = s\<lparr>voice_cache := (voice_cache s)(''cat'' \<mapsto> sound\<lparr>volume := volume_voice s\<rparr>),
          played := played s @ [sound\<lparr>volume := volume_voice s\<rparr>]\<rparr>"
    if "w \<in> {''Cat'', '' cat ''}" "voice_cache s ''cat'' = None"
      "load_sound s ''assets/voice/cat.mp3'' = Some sound" for w
  proof -
    have "load_sound s (voice_path ''cat'') = Some sound" using that(3) by (simp add: voice_path_cat)
    then have "play_voice w s = cache_and_play ''cat'' sound s"
      using key [OF that(1)] ne that(2) by (intro play_voice_disk_hit)
    then show ?thesis
      by (simp add: cache_and_play_def set_volume_def Let_def)
  qed
  have miss: "play_voice w s
      = s\<lparr>pending_play := Some ''cat'',
          generation_queue :=
            (if ''cat'' \<in> generating_words s then generation_queue s
             else generation_queue s @ [''cat'']),
          generating_words := insert ''cat'' (generating_words s)\<rparr>"
    if "w \<in> {''Cat'', '' cat ''}" "voice_cache s ''cat'' = None"
      "load_sound s ''assets/voice/cat.mp3'' = None" for w
  proof -
    have "load_sound s (voice_path ''cat'') = None" using that(3) by (simp add: voice_path_cat)
    then have "play_voice w s = generate_async ''cat'' s"
      using key [OF that(1)] ne that(2) by (intro play_voice_miss)
    then show ?thesis
      by (simp add: generate_async_def enqueue_def insert_absorb)
  qed
  have load: "load_sound s ''assets/voice/cat.mp3''
      = (if mixer_ok s
         then (case disk s (file_of s ''assets/voice/cat.mp3'') of
                 Some (Speech spoken) \<Rightarrow> Some \<lparr>audio = spoken, volume = 1\<rparr>
               | _ \<Rightarrow> None)
         else None)"
    by (simp add: load_sound_def read_file_def)
  have save: "disk (worker_generate Synth_ok s)
        = (disk s)(file_of s ''assets/voice/cat.mp3'' \<mapsto> Speech ''cat'')
      \<and> worker (worker_generate Synth_ok s) = Saved ''cat'' ''assets/voice/cat.mp3''"
    if "worker s = Generating ''cat''"
    using that
    by (simp add: worker_generate_def write_file_def Let_def generate_path_voice_path
        voice_path_cat)
  show ?thesis
  proof (intro conjI ballI impI)
    show "normalize ''Cat'' = ''cat''" by (rule normalize_Cat)
    show "normalize '' cat '' = ''cat''" by (rule normalize_cat_spaces)
    show "voice_path ''cat'' = ''assets/voice/cat.mp3''" by (rule voice_path_cat)
    show "generate_path ''cat'' = ''assets/voice/cat.mp3''"
      by (simp add: generate_path_voice_path voice_path_cat)
  qed (use memory disk miss load save in \<open>blast+\<close>)
qed

theorem request_Cat_same_key_witness:
  "played (play_voice ''Cat'' cat_on_disk) = [\<lparr>audio = ''cat'', volume = 0.8\<rparr>]
   \<and> played (play_voice '' cat '' cat_on_disk) = [\<lparr>audio = ''cat'', volume = 0.8\<rparr>]
   \<and> voice_cache (play_voice ''Cat'' cat_on_disk) ''cat'' = Some \<lparr>audio = ''cat'', volume = 0.8\<rparr>
   \<and> generation_queue (play_voice ''Cat'' (init True id Map.empty)) = [''cat'']
   \<and> generation_queue (play_voice '' cat '' (init True id Map.empty)) = [''cat'']
   \<and> pending_play (play_voice '' cat '' (init True id Map.empty)) = Some ''cat''
   \<and> generating_words (play_voice '' cat '' (init True id Map.empty)) = {''cat''}
   \<and> played (play_voice '' cat '' (play_voice ''Cat'' cat_on_disk))
       = [\<lparr>audio = ''cat'', volume = 0.8\<rparr>, \<lparr>audio = ''cat'', volume = 0.8\<rparr>]"
proof -
  let ?d = cat_on_disk
  let ?e = "init True id Map.empty"
  let ?snd = "\<lparr>audio = ''cat'', volume = 1\<rparr>"
  let ?c = "?d\<lparr>voice_cache := (voice_cache ?d)(''cat'' \<mapsto> ?snd\<lparr>volume := volume_voice ?d\<rparr>),
      played := played ?d @ [?snd\<lparr>volume := volume_voice ?d\<rparr>]\<rparr>"
  have d: "voice_cache ?d ''cat'' = None" "load_sound ?d ''assets/voice/cat.mp3'' = Some ?snd"
    "played ?d = []" "volume_voice ?d = 0.8"
    by (simp_all add: cat_on_disk_def init_def load_sound_def read_file_def)
  have e: "voice_cache ?e ''cat'' = None" "load_sound ?e ''assets/voice/cat.mp3'' = None"
    "generation_queue ?e = []" "generating_words ?e = {}"
    by (simp_all add: init_def load_sound_def read_file_def)
  have c: "voice_cache ?c ''cat'' = Some (?snd\<lparr>volume := volume_voice ?d\<rparr>)"
    by simp
  have 1: "play_voice ''Cat'' ?d = ?c" and 2: "play_voice '' cat '' ?d = ?c"
    using request_Cat_same_key [of ?d ?snd] d(1,2) by simp_all
  have 3: "play_voice '' cat '' ?c
      = ?c\<lparr>voice_cache := (voice_cache ?c)(''cat'' \<mapsto> ?snd\<lparr>volume := volume_voice ?d,
                volume := volume_voice ?c\<rparr>),
           played := played ?c @ [?snd\<lparr>volume := volume_voice ?d, volume := volume_voice ?c\<rparr>]\<rparr>"
    using request_Cat_same_key [of ?c "?snd\<lparr>volume := volume_voice ?d\<rparr>"] c by simp
  have 4: "play_voice ''Cat'' ?e
      = ?e\<lparr>pending_play := Some ''cat'', generation_queue := [''cat''],
           generating_words := {''cat''}\<rparr>"
    and 5: "play_voice '' cat '' ?e
      = ?e\<lparr>pending_play := Some ''cat'', generation_queue := [''cat''],
           generating_words := {''cat''}\<rparr>"
    using request_Cat_same_key [of ?e ?snd] e by simp_all
  show ?thesis
    unfolding 1 2 3 4 5 using d(3,4) by simp
qed

subsection \<open>Volume of the voice channel\<close>

text \<open>
  C7. \<open>set_volume_voice\<close> clamps the value into the range from 0 to 1, stores the
  clamped value as the voice volume and sets the volume of every sound of the voice
  cache to it; the cache keeps its keys and the other fields keep their values.
\<close>

theorem set_volume_voice_all:
  "let v = max 0 (min 1 vol); s' = set_volume_voice vol s
   in 0 \<le> v \<and> v \<le> 1 \<and> (0 \<le> vol \<and> vol \<le> 1 \<longrightarrow> v = vol)
      \<and> volume_voice s' = v
      \<and> dom (voice_cache s') = dom (voice_cache s)
      \<and> (\<forall>word sound. voice_cache s word = Some sound
            \<longrightarrow> voice_cache s' word = Some (sound\<lparr>volume := v\<rparr>))
      \<and> (\<forall>sound \<in> ran (voice_cache s'). volume sound = v)
      \<and> s' = s\<lparr>volume_voice := volume_voice s', voice_cache := voice_cache s'\<rparr>"
  by (auto simp: set_volume_voice_def set_volume_def Let_def ran_def dom_def)

theorem set_volume_voice_all_witness:
  "volume_voice (set_volume_voice 0.5 three_cached) = 0.5
   \<and> voice_cache (set_volume_voice 0.5 three_cached) ''cat'' = Some \<lparr>audio = ''cat'', volume = 0.5\<rparr>
   \<and> voice_cache (set_volume_voice 0.5 three_cached) ''dog'' = Some \<lparr>audio = ''dog'', volume = 0.5\<rparr>
   \<and> voice_cache (set_volume_voice 0.5 three_cached) ''owl'' = Some \<lparr>audio = ''owl'', volume = 0.5\<rparr>
   \<and> volume_voice (set_volume_voice 1.7 three_cached) = 1"
  using set_volume_voice_all [of "0.5" three_cached] set_volume_voice_all [of "1.7" three_cached]
  by (simp add: Let_def three_cached_cache)

subsection \<open>A drained completion\<close>




text \<open>
  Why the file has to load at the time of the poll. With a working mixer, a word that
  is requested again while it is being generated is queued a second time after its
  record has been published, and the worker opens its file anew: the record is
  drained while the file is empty, and the cache has no entry for the word.
\<close>

lemma completion_rewritten_before_poll:
  "reachable cat_rewritten \<and> mixer_ok cat_rewritten
   \<and> ready_queue cat_rewritten = [(''cat'', ''assets/voice/cat.mp3'')]
   \<and> read_file cat_rewritten ''assets/voice/cat.mp3'' = Some Corrupt
   \<and> ready_queue (exec Poll cat_rewritten) = []
   \<and> voice_cache (exec Poll cat_rewritten) ''cat'' = None"
  using reach_cat_rewritten
  by (simp add: cat_rewritten_eq init_def update_def handle_ready_def load_sound_def
      read_file_def)

text \<open>
  And the file of a published record can be written for another key whose path names
  the same file: the sound stored under the key is then the speech of the other word.
\<close>

lemma completion_of_aliased_path:
  "reachable cat_aliased
   \<and> ready_queue cat_aliased = [(''cat'', ''assets/voice/cat.mp3'')]
   \<and> read_file cat_aliased ''assets/voice/cat.mp3'' = Some (Speech ''./cat'')
   \<and> voice_cache (exec Poll cat_aliased) ''cat'' = Some \<lparr>audio = ''./cat'', volume = 1\<rparr>"
  using reach_cat_aliased
  by (simp add: cat_aliased_eq init_def update_def handle_ready_def load_sound_def
      read_file_def alias_names_def)

subsection \<open>Poll with nothing ready\<close>

text \<open>
  C9. With an empty ready queue \<open>update\<close> returns the state it was given: no field
  changes and nothing is played.
\<close>

theorem poll_empty_noop: "ready_queue s = [] \<Longrightarrow> update s = s"
  by (simp add: update_def)

theorem poll_empty_noop_witness:
  "ready_queue (init True id Map.empty) = [] \<and> update (init True id Map.empty) = init True id Map.empty"
proof -
  have r: "ready_queue (init True id Map.empty) = []" by (simp add: init_def)
  show ?thesis using r poll_empty_noop [OF r] by simp
qed

subsection \<open>The empty word\<close>

text \<open>
  C10. A word of white space only (the empty word too) has the empty key, and
  \<open>play_voice\<close> returns the state it was given: nothing is played, cached, queued,
  marked as generating or set pending.
\<close>

theorem empty_word_noop:
  "(normalize word = [] \<longleftrightarrow> (\<forall>c \<in> set word. isspace c))
   \<and> (normalize word = [] \<longrightarrow> play_voice word s = s)"
  by (simp add: normalize_Nil_iff play_voice_def)

theorem empty_word_noop_witness:
  "normalize ''  '' = [] \<and> play_voice ''  '' (init True id Map.empty) = init True id Map.empty"
proof -
  have n: "normalize ''  '' = []" by code_simp
  show ?thesis using n empty_word_noop [of "''  ''" "init True id Map.empty"] by simp
qed

end
